theory Spec2Isabelle
  imports Complex_Main "HOL-Library.AList" "HOL-Library.Multiset"
begin

section \<open>Data model\<close>

text \<open>
  Exceptions of the Python code are values. Only the classes that the builders can meet
  are listed: \<open>OSError\<close> (a failed \<open>stat\<close>, \<open>open\<close> or \<open>mkdir\<close>), \<open>KeyError\<close> (a
  missing dictionary key), \<open>ValueError\<close> (raised by \<open>urllib.parse\<close>) and \<open>TypeError\<close>
  (subscripting a value that is not a dictionary).
\<close>

datatype error = OSError | KeyError | ValueError | TypeError

text \<open>
  An AST node is a Python dictionary. Its scalar entries (\<open>type\<close>, \<open>kind\<close>,
  \<open>identifier\<close>, \<open>url\<close>, \<open>value\<close>, ...) are kept as an association list from keys to
  strings, in insertion order; the sequence under \<open>children\<close> is kept apart.
\<close>

datatype node = Node (items: "(string \<times> string) list") (children: "node list")

text \<open>
  The collaborators that are not part of \<open>builder.py\<close>: the naming utility
  \<open>title_to_name\<close>, the digest \<open>hashlib.sha256(...).hexdigest()\<close>, and the two host
  checks that \<open>urllib.parse.urlsplit\<close> delegates to \<open>ipaddress\<close> and \<open>unicodedata\<close>
  (\<open>True\<close> when the check returns without raising).
\<close>

record ext =
  title_to_name :: "string \<Rightarrow> string"
  sha256_hexdigest :: "string \<Rightarrow> string"
  check_bracketed_host :: "string \<Rightarrow> bool"
  checknetloc_nfkc :: "string \<Rightarrow> bool"

text \<open>
  The Sphinx build environment as far as the builders read it: \<open>found_docs\<close> is a Python
  set, given here as the list of its elements in iteration order; \<open>all_docs\<close> is a
  dictionary of which only the keys are consulted.
\<close>

record build_env =
  found_docs :: "string list"
  all_docs :: "string set"
  doc2path :: "string \<Rightarrow> string"

record builder =
  env :: build_env
  outdir :: string

section \<open>Slugs and paths\<close>

text \<open>\<open>os.path.basename\<close> (POSIX): everything after the last slash.\<close>

definition basename :: "string \<Rightarrow> string" where
  "basename p = rev (takeWhile (\<lambda>c. c \<noteq> CHR ''/'') (rev p))"

text \<open>\<open>MySTBuilder._slugify\<close> and \<open>MySTXRefBuilder._slugify\<close>.\<close>

definition myst_slugify :: "ext \<Rightarrow> string \<Rightarrow> string" where
  "myst_slugify x p = title_to_name x (basename p)"

definition xref_slugify :: "ext \<Rightarrow> string \<Rightarrow> string" where
  "xref_slugify x p = title_to_name x (basename p)"

text \<open>
  \<open>pathlib.Path(outdir) / name\<close> for an output root without trailing slash and a
  relative \<open>name\<close>; \<open>os.fspath\<close> of the result is the same string.
\<close>

definition path_join :: "string \<Rightarrow> string \<Rightarrow> string" where
  "path_join d name = d @ ''/'' @ name"

definition myst_get_output_path :: "ext \<Rightarrow> builder \<Rightarrow> string \<Rightarrow> string" where
  "myst_get_output_path x b doc_name =
     (let target_stem = myst_slugify x doc_name
      in path_join (outdir b) (target_stem @ ''.myst.json''))"

definition xref_get_target_path :: "ext \<Rightarrow> builder \<Rightarrow> string \<Rightarrow> string" where
  "xref_get_target_path x b doc_name =
     (let target_stem = xref_slugify x doc_name
      in path_join (path_join (outdir b) ''content'') (target_stem @ ''.json''))"

definition get_source_path :: "builder \<Rightarrow> string \<Rightarrow> string" where
  "get_source_path b doc_name = doc2path (env b) doc_name"

section \<open>Staleness detection\<close>

text \<open>
  \<open>os.path.getmtime\<close> is a parameter \<open>getmtime\<close>: \<open>Some t\<close> is the modification time,
  \<open>None\<close> stands for the \<open>OSError\<close> that a failed \<open>stat\<close> raises. The generator
  \<open>get_outdated_docs\<close> becomes the list of the names it yields, in order; its \<open>for\<close>
  loop is the recursion over \<open>found_docs\<close>.
\<close>

primrec myst_outdated_loop ::
  "ext \<Rightarrow> builder \<Rightarrow> (string \<Rightarrow> real option) \<Rightarrow> string list \<Rightarrow> string list" where
  "myst_outdated_loop x b getmtime [] = []"
| "myst_outdated_loop x b getmtime (docname # rest) =
     (if docname \<notin> all_docs (env b) then docname # myst_outdated_loop x b getmtime rest
      else
        let target_path = myst_get_output_path x b docname;
            targetmtime = (case getmtime target_path of Some t \<Rightarrow> t | None \<Rightarrow> 0);
            source_path = get_source_path b docname
        in (case getmtime source_path of
              Some srcmtime \<Rightarrow>
                if srcmtime > targetmtime then docname # myst_outdated_loop x b getmtime rest
                else myst_outdated_loop x b getmtime rest
            | None \<Rightarrow> myst_outdated_loop x b getmtime rest))"

definition myst_get_outdated_docs ::
  "ext \<Rightarrow> builder \<Rightarrow> (string \<Rightarrow> real option) \<Rightarrow> string list" where
  "myst_get_outdated_docs x b getmtime =
     myst_outdated_loop x b getmtime (found_docs (env b))"

primrec xref_outdated_loop ::
  "ext \<Rightarrow> builder \<Rightarrow> (string \<Rightarrow> real option) \<Rightarrow> string list \<Rightarrow> string list" where
  "xref_outdated_loop x b getmtime [] = []"
| "xref_outdated_loop x b getmtime (docname # rest) =
     (if docname \<notin> all_docs (env b) then docname # xref_outdated_loop x b getmtime rest
      else
        let target_path = xref_get_target_path x b docname;
            targetmtime = (case getmtime target_path of Some t \<Rightarrow> t | None \<Rightarrow> 0)
        in (case getmtime (doc2path (env b) docname) of
              Some srcmtime \<Rightarrow>
                if srcmtime > targetmtime then docname # xref_outdated_loop x b getmtime rest
                else xref_outdated_loop x b getmtime rest
            | None \<Rightarrow> xref_outdated_loop x b getmtime rest))"

definition xref_get_outdated_docs ::
  "ext \<Rightarrow> builder \<Rightarrow> (string \<Rightarrow> real option) \<Rightarrow> string list" where
  "xref_get_outdated_docs x b getmtime =
     xref_outdated_loop x b getmtime (found_docs (env b))"

section \<open>Reference kinds\<close>

text \<open>
  \<open>MySTXRefBuilder._xref_kind_for_node\<close>. \<open>node["type"]\<close> raises \<open>KeyError\<close> when the
  key is missing; \<open>node.get("kind", "figure")\<close> does not.
\<close>

definition xref_kind_for_node :: "node \<Rightarrow> error + string" where
  "xref_kind_for_node n =
     (case map_of (items n) ''type'' of
        None \<Rightarrow> Inl KeyError
      | Some ty \<Rightarrow>
          if ty = ''container''
          then Inr (case map_of (items n) ''kind'' of Some k \<Rightarrow> k | None \<Rightarrow> ''figure'')
          else (case map_of (items n) ''kind'' of
                  Some k \<Rightarrow> Inr (ty @ '':'' @ k)
                | None \<Rightarrow> Inr ty))"

section \<open>URL parsing\<close>

text \<open>
  \<open>urllib.parse\<close> as in CPython 3.11, for \<open>str\<close> arguments and the default arguments
  \<open>scheme=''\<close> and \<open>allow_fragments=True\<close>. \<open>ParseResult\<close> is the named 6-tuple.
\<close>

record parse_result =
  scheme :: string
  netloc :: string
  path :: string
  params :: string
  query :: string
  fragment :: string

definition uses_netloc :: "string list" where
  "uses_netloc = ['''', ''ftp'', ''http'', ''gopher'', ''nntp'', ''telnet'',
                  ''imap'', ''wais'', ''file'', ''mms'', ''https'', ''shttp'',
                  ''snews'', ''prospero'', ''rtsp'', ''rtsps'', ''rtspu'', ''rsync'',
                  ''svn'', ''svn+ssh'', ''sftp'', ''nfs'', ''git'', ''git+ssh'',
                  ''ws'', ''wss'']"

definition uses_params :: "string list" where
  "uses_params = ['''', ''ftp'', ''hdl'', ''prospero'', ''http'', ''imap'',
                  ''https'', ''shttp'', ''rtsp'', ''rtsps'', ''rtspu'', ''sip'',
                  ''sips'', ''mms'', ''sftp'', ''tel'']"

definition ascii_lowercase :: string where
  "ascii_lowercase = ''abcdefghijklmnopqrstuvwxyz''"

definition ascii_uppercase :: string where
  "ascii_uppercase = ''ABCDEFGHIJKLMNOPQRSTUVWXYZ''"

definition scheme_chars :: string where
  "scheme_chars = ascii_lowercase @ ascii_uppercase @ ''0123456789'' @ ''+-.''"

text \<open>\<open>c.isascii() and c.isalpha()\<close>.\<close>

definition is_ascii_alpha :: "char \<Rightarrow> bool" where
  "is_ascii_alpha c \<longleftrightarrow> c \<in> set (ascii_lowercase @ ascii_uppercase)"

text \<open>\<open>str.lower\<close> on a character of \<open>scheme_chars\<close>.\<close>

definition lower_char :: "char \<Rightarrow> char" where
  "lower_char c = (if c \<in> set ascii_uppercase then char_of (of_char c + (32::nat)) else c)"

text \<open>Membership in \<open>_WHATWG_C0_CONTROL_OR_SPACE\<close> and in \<open>_UNSAFE_URL_BYTES_TO_REMOVE\<close>.\<close>

definition c0_control_or_space :: "char \<Rightarrow> bool" where
  "c0_control_or_space c \<longleftrightarrow> (of_char c :: nat) \<le> 32"

definition unsafe_url_byte :: "char \<Rightarrow> bool" where
  "unsafe_url_byte c \<longleftrightarrow> c = CHR 0x09 \<or> c = CHR 0x0D \<or> c = CHR 0x0A"

text \<open>\<open>s.split(c, 1)\<close> for a string \<open>s\<close> that contains \<open>c\<close>.\<close>

definition split_first :: "char \<Rightarrow> string \<Rightarrow> string \<times> string" where
  "split_first c s = (takeWhile (\<lambda>d. d \<noteq> c) s, tl (dropWhile (\<lambda>d. d \<noteq> c) s))"

text \<open>\<open>_splitnetloc(url, 2)\<close>: the domain ends at the first of \<open>/\<close>, \<open>?\<close>, \<open>#\<close>.\<close>

definition netloc_delim :: "char \<Rightarrow> bool" where
  "netloc_delim c \<longleftrightarrow> c = CHR ''/'' \<or> c = CHR ''?'' \<or> c = CHR ''#''"

definition splitnetloc2 :: "string \<Rightarrow> string \<times> string" where
  "splitnetloc2 url =
     (takeWhile (\<lambda>c. \<not> netloc_delim c) (drop 2 url),
      dropWhile (\<lambda>c. \<not> netloc_delim c) (drop 2 url))"

text \<open>
  The checks of the network location made inside \<open>if url[:2] == '//'\<close>: unbalanced
  brackets raise, a bracketed host goes to \<open>_check_bracketed_host\<close>.
\<close>

definition bracketed_host :: "string \<Rightarrow> string" where
  "bracketed_host nl =
     takeWhile (\<lambda>c. c \<noteq> CHR '']'') (tl (dropWhile (\<lambda>c. c \<noteq> CHR ''['') nl))"

definition brackets_ok :: "ext \<Rightarrow> string \<Rightarrow> bool" where
  "brackets_ok x nl \<longleftrightarrow>
     \<not> ((CHR ''['' \<in> set nl \<and> CHR '']'' \<notin> set nl) \<or>
        (CHR '']'' \<in> set nl \<and> CHR ''['' \<notin> set nl)) \<and>
     (CHR ''['' \<in> set nl \<and> CHR '']'' \<in> set nl \<longrightarrow>
        check_bracketed_host x (bracketed_host nl))"

text \<open>
  \<open>_checknetloc\<close>: nothing to check for an empty or all-ASCII location; otherwise the
  NFKC test of \<open>unicodedata\<close> decides.
\<close>

definition checknetloc :: "ext \<Rightarrow> string \<Rightarrow> bool" where
  "checknetloc x nl \<longleftrightarrow>
     nl = [] \<or> list_all (\<lambda>c. (of_char c :: nat) < 128) nl \<or> checknetloc_nfkc x nl"

text \<open>\<open>url.find(':') > 0\<close>, a letter first, and only scheme characters before the colon.\<close>

definition has_scheme :: "string \<Rightarrow> bool" where
  "has_scheme url \<longleftrightarrow>
     CHR '':'' \<in> set url \<and> takeWhile (\<lambda>c. c \<noteq> CHR '':'') url \<noteq> [] \<and>
     is_ascii_alpha (hd url) \<and>
     list_all (\<lambda>c. c \<in> set scheme_chars) (takeWhile (\<lambda>c. c \<noteq> CHR '':'') url)"

definition urlsplit ::
  "ext \<Rightarrow> string \<Rightarrow> error + (string \<times> string \<times> string \<times> string \<times> string)" where
  "urlsplit x url0 =
     (let url1 = filter (\<lambda>c. \<not> unsafe_url_byte c) (dropWhile c0_control_or_space url0);
          i = length (takeWhile (\<lambda>c. c \<noteq> CHR '':'') url1);
          (sch, url2) =
            (if has_scheme url1 then (map lower_char (take i url1), drop (i + 1) url1)
             else ([], url1));
          (nl, url3) = (if take 2 url2 = ''//'' then splitnetloc2 url2 else ([], url2))
      in if take 2 url2 = ''//'' \<and> \<not> brackets_ok x nl then Inl ValueError
         else
           let (url4, frag) =
                 (if CHR ''#'' \<in> set url3 then split_first (CHR ''#'') url3 else (url3, []));
               (url5, qry) =
                 (if CHR ''?'' \<in> set url4 then split_first (CHR ''?'') url4 else (url4, []))
           in if \<not> checknetloc x nl then Inl ValueError
              else Inr (sch, nl, url5, qry, frag))"

text \<open>
  \<open>_splitparams\<close>: the parameters start at the first semicolon found from the last slash
  on, that is, in the last path segment; \<open>url[:i]\<close> is the text before that semicolon
  and \<open>url[i+1:]\<close> the text after it. It is called only for a \<open>url\<close> that contains a
  semicolon.
\<close>

definition splitparams :: "string \<Rightarrow> string \<times> string" where
  "splitparams url =
     (if CHR ''/'' \<in> set url
      then
        (let seg = rev (takeWhile (\<lambda>c. c \<noteq> CHR ''/'') (rev url));
             pre = rev (dropWhile (\<lambda>c. c \<noteq> CHR ''/'') (rev url))
         in if CHR '';'' \<notin> set seg then (url, [])
            else (pre @ takeWhile (\<lambda>c. c \<noteq> CHR '';'') seg,
                  tl (dropWhile (\<lambda>c. c \<noteq> CHR '';'') seg)))
      else (takeWhile (\<lambda>c. c \<noteq> CHR '';'') url, tl (dropWhile (\<lambda>c. c \<noteq> CHR '';'') url)))"

definition urlparse :: "ext \<Rightarrow> string \<Rightarrow> error + parse_result" where
  "urlparse x url0 =
     (case urlsplit x url0 of
        Inl e \<Rightarrow> Inl e
      | Inr (sch, nl, url, qry, frag) \<Rightarrow>
          let (url', prm) =
                (if sch \<in> set uses_params \<and> CHR '';'' \<in> set url then splitparams url
                 else (url, []))
          in Inr \<lparr> scheme = sch, netloc = nl, path = url', params = prm,
                   query = qry, fragment = frag \<rparr>)"

definition urlunsplit :: "string \<times> string \<times> string \<times> string \<times> string \<Rightarrow> string" where
  "urlunsplit c =
     (case c of (sch, nl, url, qry, frag) \<Rightarrow>
        let url1 =
              (if nl \<noteq> [] \<or> (sch \<noteq> [] \<and> sch \<in> set uses_netloc) \<or>
                  take 2 url = ''//''
               then ''//'' @ nl @
                      (if url \<noteq> [] \<and> take 1 url \<noteq> ''/'' then ''/'' @ url else url)
               else url);
            url2 = (if sch \<noteq> [] then sch @ '':'' @ url1 else url1);
            url3 = (if qry \<noteq> [] then url2 @ ''?'' @ qry else url2)
        in (if frag \<noteq> [] then url3 @ ''#'' @ frag else url3))"

definition urlunparse :: "parse_result \<Rightarrow> string" where
  "urlunparse p =
     (let url = (if params p \<noteq> [] then path p @ '';'' @ params p else path p)
      in urlunsplit (scheme p, netloc p, url, query p, fragment p))"

section \<open>Walking the tree\<close>

text \<open>
  A reference to a node of a tree is the node's position: the child indices on the way
  from the root. \<open>node_at\<close> reads the node at a position and \<open>update_at\<close> replaces it,
  which is what assigning through a Python reference does.
\<close>

primrec node_at :: "nat list \<Rightarrow> node \<Rightarrow> node option" where
  "node_at [] n = Some n"
| "node_at (i # p) n =
     (if i < length (children n) then node_at p (children n ! i) else None)"

primrec update_at :: "nat list \<Rightarrow> (node \<Rightarrow> node) \<Rightarrow> node \<Rightarrow> node" where
  "update_at [] f n = f n"
| "update_at (i # p) f n =
     (if i < length (children n)
      then Node (items n) ((children n)[i := update_at p f (children n ! i)])
      else n)"

fun node_count :: "node \<Rightarrow> nat" where
  "node_count (Node its cs) = Suc (sum_list (map node_count cs))"

definition kids :: "nat list \<Rightarrow> node \<Rightarrow> (nat list \<times> node) list" where
  "kids p n = map (\<lambda>(i, c). (p @ [i], c)) (enumerate 0 (children n))"

lemma map_snd_kids: "map snd (kids p n) = children n"
proof -
  have "snd \<circ> (\<lambda>(i, c). (p @ [i], c)) = (snd :: nat \<times> node \<Rightarrow> node)"
    by auto
  then show ?thesis by (simp add: kids_def)
qed

lemma kids_count:
  "sum_list (map (\<lambda>r. node_count (snd r)) (kids p n)) = sum_list (map node_count (children n))"
proof -
  have "map (\<lambda>r. node_count (snd r)) (kids p n) = map node_count (map snd (kids p n))"
    by simp
  then show ?thesis by (simp only: map_snd_kids)
qed

text \<open>
  Modelled from the spec: \<open>breadth_first_walk\<close> of \<open>utils.py\<close>, which is not among the
  sources. The spec gives it as the sequence of all nodes reachable from the root in
  breadth-first order: the root first, then its children in document order, then the
  grandchildren, and so on. \<open>walk_queue\<close> is the loop over a first-in first-out queue;
  each node is yielded together with its position.
\<close>

function walk_queue :: "(nat list \<times> node) list \<Rightarrow> (nat list \<times> node) list" where
  "walk_queue [] = []"
| "walk_queue ((p, n) # queue) = (p, n) # walk_queue (queue @ kids p n)"
  by pat_completeness auto
termination
proof (relation "measure (\<lambda>q. sum_list (map (\<lambda>r. node_count (snd r)) q))")
  show "wf (measure (\<lambda>q. sum_list (map (\<lambda>r. node_count (snd r)) q)))"
    by simp
next
  fix p n queue
  show "(queue @ kids p n, (p, n) # queue)
          \<in> measure (\<lambda>q. sum_list (map (\<lambda>r. node_count (snd r)) q))"
    by (cases n) (simp add: kids_count)
qed

definition breadth_first_walk :: "node \<Rightarrow> (nat list \<times> node) list" where
  "breadth_first_walk tree = walk_queue [([], tree)]"

text \<open>
  Modelled from the spec: \<open>find_by_type\<close> of \<open>utils.py\<close>, which is not among the
  sources. The spec speaks of every link-type node and of the first heading-type node
  of the AST; the nodes are taken in the order of the spec's only walker.
\<close>

definition find_by_type :: "string \<Rightarrow> node \<Rightarrow> (nat list \<times> node) list" where
  "find_by_type ty tree =
     filter (\<lambda>r. map_of (items (snd r)) ''type'' = Some ty) (breadth_first_walk tree)"

text \<open>
  Modelled from the spec: \<open>to_text\<close> of \<open>utils.py\<close>, which is not among the sources.
  The spec calls its result the flattened text content of a node: the node's own
  \<open>value\<close>, or else the texts of its children joined in document order.
\<close>

fun to_text :: "node \<Rightarrow> string" where
  "to_text (Node its cs) =
     (case map_of its ''value'' of Some v \<Rightarrow> v | None \<Rightarrow> concat (map to_text cs))"

section \<open>Rewriting internal links\<close>

text \<open>
  \<open>MySTBuilderMixin.transform_internal_links\<close>. The loop runs over the references that
  \<open>find_by_type\<close> yields; its body reads and assigns \<open>link["url"]\<close> through the
  reference. The body changes neither a \<open>type\<close> nor a \<open>children\<close> entry, so the
  lazily produced sequence of references is the one computed from the tree at entry. An
  exception leaves the loop with the error; the tree is then abandoned by the caller.
  Every position that the walk yields is a position of the tree (lemma
  \<open>breadth_first_walk_valid\<close> below), so the case \<open>None\<close> of \<open>node_at\<close> is never
  taken; it only makes the function total.
\<close>

fun transform_loop :: "ext \<Rightarrow> string set \<Rightarrow> nat list list \<Rightarrow> node \<Rightarrow> error + node" where
  "transform_loop x docnames [] tree = Inr tree"
| "transform_loop x docnames (p # ps) tree =
     (case node_at p tree of
        None \<Rightarrow> transform_loop x docnames ps tree
      | Some link \<Rightarrow>
          (case map_of (items link) ''url'' of
             None \<Rightarrow> Inl KeyError
           | Some url \<Rightarrow>
               (case urlparse x url of
                  Inl e \<Rightarrow> Inl e
                | Inr parsed_uri \<Rightarrow>
                    if scheme parsed_uri \<noteq> [] \<or> path parsed_uri = []
                    then transform_loop x docnames ps tree
                    else if path parsed_uri \<notin> docnames
                    then transform_loop x docnames ps tree
                    else
                      let new_path = path parsed_uri @ ''.myst.json'';
                          new_url = urlunparse (parsed_uri\<lparr>path := new_path\<rparr>)
                      in transform_loop x docnames ps
                           (update_at p
                              (\<lambda>l. Node (AList.update ''url'' new_url (items l)) (children l))
                              tree))))"

definition transform_internal_links :: "ext \<Rightarrow> builder \<Rightarrow> node \<Rightarrow> error + node" where
  "transform_internal_links x b tree =
     (let docnames = set (found_docs (env b))
      in transform_loop x docnames (map fst (find_by_type ''link'' tree)) tree)"

section \<open>Output files\<close>

text \<open>
  The values handed to \<open>json.dump\<close> and returned by \<open>json.load\<close>. Dictionaries keep
  their keys in insertion order. An AST keeps its tree form (\<open>JAst\<close>); dumping and
  loading again returns the same value.
\<close>

datatype json =
    JNull
  | JBool bool
  | JStr string
  | JList "json list"
  | JDict "(string \<times> json) list"
  | JAst node

text \<open>
  The output tree: the directories that exist and the JSON documents stored in files.
  The sources are a separate read-only map from paths to bytes (\<open>None\<close>: the file
  cannot be opened).
\<close>

record filesystem =
  dirs :: "string set"
  files :: "string \<rightharpoonup> json"

text \<open>\<open>pathlib.Path.parent\<close>: the path without its last component.\<close>

definition parent :: "string \<Rightarrow> string" where
  "parent p = rev (tl (dropWhile (\<lambda>c. c \<noteq> CHR ''/'') (rev p)))"

text \<open>
  \<open>Path.mkdir(exist_ok=True)\<close>: nothing to do for an existing directory;
  \<open>FileExistsError\<close> when the path is a file, \<open>FileNotFoundError\<close> when the parent is
  missing (both are \<open>OSError\<close>).
\<close>

definition mkdir_exist_ok :: "filesystem \<Rightarrow> string \<Rightarrow> error + filesystem" where
  "mkdir_exist_ok fs p =
     (if p \<in> dirs fs then Inr fs
      else if p \<in> dom (files fs) then Inl OSError
      else if parent p \<in> dirs fs then Inr (fs\<lparr>dirs := insert p (dirs fs)\<rparr>)
      else Inl OSError)"

text \<open>\<open>with open(p, "w") as f: json.dump(v, f)\<close> and \<open>with open(p, "r") as f: json.load(f)\<close>.\<close>

definition write_json :: "filesystem \<Rightarrow> string \<Rightarrow> json \<Rightarrow> error + filesystem" where
  "write_json fs p v =
     (if parent p \<in> dirs fs \<and> p \<notin> dirs fs then Inr (fs\<lparr>files := (files fs)(p \<mapsto> v)\<rparr>)
      else Inl OSError)"

definition read_json :: "filesystem \<Rightarrow> string \<Rightarrow> error + json" where
  "read_json fs p = (case files fs p of None \<Rightarrow> Inl OSError | Some v \<Rightarrow> Inr v)"

text \<open>\<open>data["mdast"]\<close> on a loaded document.\<close>

definition get_mdast :: "json \<Rightarrow> error + node" where
  "get_mdast data =
     (case data of
        JDict kvs \<Rightarrow>
          (case map_of kvs ''mdast'' of
             None \<Rightarrow> Inl KeyError
           | Some (JAst tree) \<Rightarrow> Inr tree
           | Some _ \<Rightarrow> Inl TypeError)
      | _ \<Rightarrow> Inl TypeError)"

section \<open>Emitting documents\<close>

text \<open>
  \<open>MySTBuilder.write_doc\<close>. The argument \<open>mdast0\<close> is the result of the node visitor
  on the document tree. An exception propagates to the caller and ends the build; the
  result is then the error alone, and what a failed call leaves in the output tree (a
  directory it has created) is not described.
\<close>

definition myst_write_doc ::
  "ext \<Rightarrow> builder \<Rightarrow> filesystem \<Rightarrow> string \<Rightarrow> node \<Rightarrow> error + filesystem" where
  "myst_write_doc x b fs doc_name mdast0 =
     (case transform_internal_links x b mdast0 of
        Inl e \<Rightarrow> Inl e
      | Inr mdast \<Rightarrow>
          let output_path = myst_get_output_path x b doc_name
          in (case mkdir_exist_ok fs (parent output_path) of
                Inl e \<Rightarrow> Inl e
              | Inr fs1 \<Rightarrow>
                  write_json fs1 output_path
                    (JDict [(''kind'', JStr ''Article''), (''mdast'', JAst mdast)])))"

text \<open>The title lifted by \<open>MySTXRefBuilder.write_doc\<close>: the text of the first heading.\<close>

definition lift_title :: "node \<Rightarrow> string option" where
  "lift_title mdast =
     (case find_by_type ''heading'' mdast of
        [] \<Rightarrow> None
      | heading # _ \<Rightarrow> Some (to_text (snd heading)))"

definition xref_artifact :: "ext \<Rightarrow> string \<Rightarrow> string \<Rightarrow> node \<Rightarrow> json" where
  "xref_artifact x doc_name contents mdast =
     (let sha256 = sha256_hexdigest x contents;
          slug = xref_slugify x doc_name;
          title = lift_title mdast
      in JDict
           [(''kind'', JStr ''Article''),
            (''sha256'', JStr sha256),
            (''slug'', JStr slug),
            (''location'', JStr (''/'' @ doc_name)),
            (''dependencies'', JList []),
            (''frontmatter'',
               JDict [(''title'', (case title of None \<Rightarrow> JNull | Some t \<Rightarrow> JStr t)),
                      (''content_includes_title'', JBool (title \<noteq> None))]),
            (''mdast'', JAst mdast),
            (''references'',
               JDict [(''cite'', JDict [(''order'', JList []), (''data'', JDict [])])])])"

text \<open>\<open>MySTXRefBuilder.write_doc\<close>; \<open>sources\<close> gives the bytes of the source files.\<close>

definition xref_write_doc ::
  "ext \<Rightarrow> builder \<Rightarrow> (string \<rightharpoonup> string) \<Rightarrow> filesystem \<Rightarrow> string \<Rightarrow> node
     \<Rightarrow> error + filesystem" where
  "xref_write_doc x b sources fs doc_name mdast0 =
     (case transform_internal_links x b mdast0 of
        Inl e \<Rightarrow> Inl e
      | Inr mdast \<Rightarrow>
          let target_path = xref_get_target_path x b doc_name;
              source_path = get_source_path b doc_name
          in (case mkdir_exist_ok fs (parent target_path) of
                Inl e \<Rightarrow> Inl e
              | Inr fs1 \<Rightarrow>
                  (case sources source_path of
                     None \<Rightarrow> Inl OSError
                   | Some contents \<Rightarrow>
                       write_json fs1 target_path
                         (xref_artifact x doc_name contents mdast))))"

section \<open>The reference manifest\<close>

definition AST_VERSION :: string where
  "AST_VERSION = ''1''"

definition MYST_VERSION :: string where
  "MYST_VERSION = ''1.36.0''"

text \<open>
  The body of the loop of \<open>_get_written_target_references\<close> over the walked nodes: one
  entry for each node with an \<open>identifier\<close>; a \<open>KeyError\<close> of the kind classification
  ends the generator.
\<close>

fun target_references_loop :: "string \<Rightarrow> string \<Rightarrow> node list \<Rightarrow> error + json list" where
  "target_references_loop path_str slug [] = Inr []"
| "target_references_loop path_str slug (n # ns) =
     (case map_of (items n) ''identifier'' of
        None \<Rightarrow> target_references_loop path_str slug ns
      | Some ident \<Rightarrow>
          (case xref_kind_for_node n of
             Inl e \<Rightarrow> Inl e
           | Inr k \<Rightarrow>
               (case target_references_loop path_str slug ns of
                  Inl e \<Rightarrow> Inl e
                | Inr refs \<Rightarrow>
                    Inr (JDict [(''identifier'', JStr ident),
                                (''kind'', JStr k),
                                (''data'', JStr path_str),
                                (''url'', JStr (''/'' @ slug))] # refs))))"

definition get_written_target_references ::
  "ext \<Rightarrow> builder \<Rightarrow> filesystem \<Rightarrow> string \<Rightarrow> error + json list" where
  "get_written_target_references x b fs doc =
     (let target = xref_get_target_path x b doc;
          slug = xref_slugify x doc
      in (case read_json fs target of
            Inl e \<Rightarrow> Inl e
          | Inr data \<Rightarrow>
              (case get_mdast data of
                 Inl e \<Rightarrow> Inl e
               | Inr mdast \<Rightarrow>
                   target_references_loop target slug
                     (map snd (breadth_first_walk mdast)))))"

text \<open>
  The nested comprehension of \<open>finish\<close> that chains the generators of all documents, in
  the order of \<open>found_docs\<close>; the first exception ends it.
\<close>

fun all_target_references ::
  "ext \<Rightarrow> builder \<Rightarrow> filesystem \<Rightarrow> string list \<Rightarrow> error + json list" where
  "all_target_references x b fs [] = Inr []"
| "all_target_references x b fs (n # ns) =
     (case get_written_target_references x b fs n of
        Inl e \<Rightarrow> Inl e
      | Inr refs \<Rightarrow>
          (case all_target_references x b fs ns of
             Inl e \<Rightarrow> Inl e
           | Inr later \<Rightarrow> Inr (refs @ later)))"

definition page_reference :: "ext \<Rightarrow> builder \<Rightarrow> string \<Rightarrow> json" where
  "page_reference x b n =
     JDict [(''kind'', JStr ''page''),
            (''url'', JStr (''/'' @ xref_slugify x n)),
            (''data'', JStr (xref_get_target_path x b n))]"

text \<open>\<open>MySTXRefBuilder.finish\<close>.\<close>

definition finish :: "ext \<Rightarrow> builder \<Rightarrow> filesystem \<Rightarrow> error + filesystem" where
  "finish x b fs =
     (let page_references = map (page_reference x b) (found_docs (env b))
      in (case all_target_references x b fs (found_docs (env b)) of
            Inl e \<Rightarrow> Inl e
          | Inr target_references \<Rightarrow>
              let references = page_references @ target_references;
                  xref = JDict [(''version'', JStr AST_VERSION),
                                (''myst'', JStr MYST_VERSION),
                                (''references'', JList references)]
              in write_json fs (path_join (outdir b) ''myst.xref.json'') xref))"

section \<open>Reading the results\<close>

text \<open>Predicates and accessors in which the results below are stated.\<close>

definition has_identifier :: "node \<Rightarrow> bool" where
  "has_identifier n \<longleftrightarrow> map_of (items n) ''identifier'' \<noteq> None"

text \<open>\<open>r\<close> is the node-level reference entry of the node \<open>n\<close> of a document.\<close>

definition is_node_reference :: "string \<Rightarrow> string \<Rightarrow> node \<Rightarrow> json \<Rightarrow> bool" where
  "is_node_reference path_str slug n r \<longleftrightarrow>
     (case (map_of (items n) ''identifier'', xref_kind_for_node n) of
        (Some ident, Inr k) \<Rightarrow>
          r = JDict [(''identifier'', JStr ident), (''kind'', JStr k),
                     (''data'', JStr path_str), (''url'', JStr (''/'' @ slug))]
      | _ \<Rightarrow> False)"

text \<open>
  \<open>rs\<close> are the node-level entries of the stored artifact of \<open>doc\<close>: one for each node
  with an identifier, in the order of the walk.
\<close>

definition doc_references :: "ext \<Rightarrow> builder \<Rightarrow> filesystem \<Rightarrow> string \<Rightarrow> json list \<Rightarrow> bool" where
  "doc_references x b fs doc rs \<longleftrightarrow>
     (case read_json fs (xref_get_target_path x b doc) of
        Inl e \<Rightarrow> False
      | Inr data \<Rightarrow>
          (case get_mdast data of
             Inl e \<Rightarrow> False
           | Inr mdast \<Rightarrow>
               list_all2
                 (is_node_reference (xref_get_target_path x b doc) (xref_slugify x doc))
                 (filter has_identifier (map snd (breadth_first_walk mdast))) rs))"

definition dict_keys :: "json \<Rightarrow> string list" where
  "dict_keys v = (case v of JDict kvs \<Rightarrow> map fst kvs | _ \<Rightarrow> [])"

definition dict_get :: "json \<Rightarrow> string \<Rightarrow> json option" where
  "dict_get v k = (case v of JDict kvs \<Rightarrow> map_of kvs k | _ \<Rightarrow> None)"

definition manifest_path :: "builder \<Rightarrow> string" where
  "manifest_path b = path_join (outdir b) ''myst.xref.json''"

text \<open>The manifest that \<open>finish\<close> leaves in the output tree, if it returns.\<close>

definition written_manifest :: "ext \<Rightarrow> builder \<Rightarrow> filesystem \<Rightarrow> json option" where
  "written_manifest x b fs =
     (case finish x b fs of Inl e \<Rightarrow> None | Inr fs' \<Rightarrow> files fs' (manifest_path b))"

text \<open>
  The frontmatter \<open>fm\<close> carries the title lifted from \<open>ast\<close>: null and false without a
  heading, else the text of the first heading and true.
\<close>

definition title_of_first_heading :: "node \<Rightarrow> json \<Rightarrow> bool" where
  "title_of_first_heading ast fm \<longleftrightarrow>
     (case find_by_type ''heading'' ast of
        [] \<Rightarrow> dict_get fm ''title'' = Some JNull
               \<and> dict_get fm ''content_includes_title'' = Some (JBool False)
      | heading # _ \<Rightarrow>
          dict_get fm ''title'' = Some (JStr (to_text (snd heading)))
          \<and> dict_get fm ''content_includes_title'' = Some (JBool True))"

text \<open>The manifest that \<open>finish\<close> leaves has the key \<open>k\<close>.\<close>

definition manifest_has_key :: "ext \<Rightarrow> builder \<Rightarrow> filesystem \<Rightarrow> string \<Rightarrow> bool" where
  "manifest_has_key x b fs k \<longleftrightarrow>
     (case written_manifest x b fs of None \<Rightarrow> False | Some m \<Rightarrow> k \<in> set (dict_keys m))"

text \<open>
  The shape of a parse result without scheme and with a path, as \<open>urlparse\<close> returns
  it: the fact kept by appending the suffix and from which the URL parses back.
\<close>

definition wf_relative :: "ext \<Rightarrow> parse_result \<Rightarrow> bool" where
  "wf_relative x P \<longleftrightarrow>
     scheme P = [] \<and> path P \<noteq> [] \<and>
     \<not> c0_control_or_space (hd (path P)) \<and>
     \<not> has_scheme (path P) \<and>
     (netloc P \<noteq> [] \<longrightarrow> hd (path P) = CHR ''/'') \<and>
     list_all (\<lambda>c. \<not> netloc_delim c) (netloc P) \<and>
     brackets_ok x (netloc P) \<and> checknetloc x (netloc P) \<and>
     CHR ''?'' \<notin> set (path P) \<and> CHR ''#'' \<notin> set (path P) \<and>
     CHR '';'' \<notin> set (takeWhile (\<lambda>c. c \<noteq> CHR ''/'') (rev (path P))) \<and>
     CHR ''/'' \<notin> set (params P) \<and> CHR ''?'' \<notin> set (params P) \<and>
     CHR ''#'' \<notin> set (params P) \<and>
     CHR ''#'' \<notin> set (query P) \<and>
     list_all (\<lambda>c. \<not> unsafe_url_byte c)
       (netloc P @ path P @ params P @ query P @ fragment P)"

lemma size_enumerate [termination_simp]:
  "r \<in> set (enumerate k cs) \<Longrightarrow> size (snd r) < Suc (size_list size cs)"
proof -
  assume "r \<in> set (enumerate k cs)"
  then have "fst r - k < length cs" "snd r = cs ! (fst r - k)"
    by (auto simp: in_set_enumerate_eq)
  then have "snd r \<in> set cs" by simp
  then have "size (snd r) \<le> size_list size cs" by (rule size_list_estimation') simp
  then show ?thesis by simp
qed

text \<open>All positions of a tree, depth-first, and the positions below the entries of a queue.\<close>

fun positions :: "node \<Rightarrow> nat list list" where
  "positions (Node its cs) =
     [] # concat (map (\<lambda>r. map ((#) (fst r)) (positions (snd r))) (enumerate 0 cs))"

definition queue_positions :: "(nat list \<times> node) list \<Rightarrow> nat list list" where
  "queue_positions q = concat (map (\<lambda>r. map ((@) (fst r)) (positions (snd r))) q)"

text \<open>The tree with \<open>g\<close> applied to the entries of every node.\<close>

fun map_tree :: "((string \<times> string) list \<Rightarrow> (string \<times> string) list) \<Rightarrow> node \<Rightarrow> node" where
  "map_tree g (Node its cs) = Node (g its) (map (map_tree g) cs)"

text \<open>The entries of the node at a position.\<close>

definition items_at :: "nat list \<Rightarrow> node \<Rightarrow> (string \<times> string) list option" where
  "items_at p t = map_option items (node_at p t)"

text \<open>
  What one pass of the loop of \<open>transform_internal_links\<close> makes of the entries of a link
  node, and whether the pass over such a node raises no exception.
\<close>

definition rewritten_items ::
  "ext \<Rightarrow> string set \<Rightarrow> (string \<times> string) list \<Rightarrow> (string \<times> string) list" where
  "rewritten_items x docnames its =
     (case map_of its ''url'' of
        None \<Rightarrow> its
      | Some url \<Rightarrow>
          (case urlparse x url of
             Inl e \<Rightarrow> its
           | Inr parsed_uri \<Rightarrow>
               if scheme parsed_uri = [] \<and> path parsed_uri \<noteq> [] \<and> path parsed_uri \<in> docnames
               then AList.update ''url''
                      (urlunparse (parsed_uri\<lparr>path := path parsed_uri @ ''.myst.json''\<rparr>)) its
               else its))"

definition link_ok :: "ext \<Rightarrow> (string \<times> string) list \<Rightarrow> bool" where
  "link_ok x its \<longleftrightarrow>
     (case map_of its ''url'' of
        None \<Rightarrow> False
      | Some url \<Rightarrow> (case urlparse x url of Inl e \<Rightarrow> False | Inr parsed_uri \<Rightarrow> True))"

text \<open>The same, for the entries of any node: only link nodes are touched.\<close>

definition link_rewrite ::
  "ext \<Rightarrow> string set \<Rightarrow> (string \<times> string) list \<Rightarrow> (string \<times> string) list" where
  "link_rewrite x docnames its =
     (if map_of its ''type'' = Some ''link'' then rewritten_items x docnames its else its)"

text \<open>All nodes of a tree, the root first (depth-first).\<close>

fun subnodes :: "node \<Rightarrow> node list" where
  "subnodes (Node its cs) = Node its cs # concat (map subnodes cs)"

section \<open>A sample corpus\<close>

text \<open>
  The corpus of the end-to-end scenario: two documents, \<open>intro\<close> (a heading, a link to
  \<open>guide\<close>, a figure) and \<open>guide\<close> (no heading), with the identity as naming utility.
\<close>

definition sample_ext :: ext where
  "sample_ext = \<lparr> title_to_name = (\<lambda>s. s), sha256_hexdigest = (\<lambda>s. ''00''),
                  check_bracketed_host = (\<lambda>h. True), checknetloc_nfkc = (\<lambda>h. True) \<rparr>"

definition sample_builder :: builder where
  "sample_builder =
     \<lparr> env = \<lparr> found_docs = [''intro'', ''guide''], all_docs = {''intro'', ''guide''},
               doc2path = (\<lambda>d. ''src/'' @ d @ ''.rst'') \<rparr>,
       outdir = ''out'' \<rparr>"

definition intro_mdast :: node where
  "intro_mdast =
     Node [(''type'', ''root'')]
       [Node [(''type'', ''heading''), (''identifier'', ''intro'')]
          [Node [(''type'', ''text''), (''value'', ''Intro'')] []],
        Node [(''type'', ''paragraph'')]
          [Node [(''type'', ''link''), (''url'', ''guide#setup'')]
             [Node [(''type'', ''text''), (''value'', ''the guide'')] []],
           Node [(''type'', ''link''), (''url'', ''https://example.org/guide'')] []],
        Node [(''type'', ''container''), (''identifier'', ''fig-1'')] []]"

definition guide_mdast :: node where
  "guide_mdast =
     Node [(''type'', ''root'')]
       [Node [(''type'', ''paragraph'')]
          [Node [(''type'', ''math''), (''kind'', ''inline''), (''identifier'', ''eq-1'')] []]]"

definition sample_sources :: "string \<rightharpoonup> string" where
  "sample_sources = [''src/intro.rst'' \<mapsto> ''Intro'', ''src/guide.rst'' \<mapsto> ''text'']"

definition sample_fs :: filesystem where
  "sample_fs = \<lparr> dirs = {''out''}, files = Map.empty \<rparr>"

text \<open>
  The tree of \<open>intro\<close> with its internal link rewritten, and the output tree after both
  documents have been written by the cross-reference builder.
\<close>

definition intro_written :: node where
  "intro_written =
     Node [(''type'', ''root'')]
       [Node [(''type'', ''heading''), (''identifier'', ''intro'')]
          [Node [(''type'', ''text''), (''value'', ''Intro'')] []],
        Node [(''type'', ''paragraph'')]
          [Node [(''type'', ''link''), (''url'', ''guide.myst.json#setup'')]
             [Node [(''type'', ''text''), (''value'', ''the guide'')] []],
           Node [(''type'', ''link''), (''url'', ''https://example.org/guide'')] []],
        Node [(''type'', ''container''), (''identifier'', ''fig-1'')] []]"

definition sample_built :: filesystem where
  "sample_built =
     \<lparr> dirs = {''out'', ''out/content''},
       files = [''out/content/intro.json'' \<mapsto> xref_artifact sample_ext ''intro'' ''Intro'' intro_written,
                ''out/content/guide.json'' \<mapsto> xref_artifact sample_ext ''guide'' ''text'' guide_mdast] \<rparr>"

text \<open>The output tree after \<open>intro\<close> alone has been written.\<close>

definition sample_fs1 :: filesystem where
  "sample_fs1 =
     \<lparr> dirs = {''out'', ''out/content''},
       files = [''out/content/intro.json''
                  \<mapsto> xref_artifact sample_ext ''intro'' ''Intro'' intro_written] \<rparr>"

text \<open>The manifest of the sample, and the output tree that holds it.\<close>

definition sample_manifest :: json where
  "sample_manifest =
     JDict
       [(''version'', JStr ''1''), (''myst'', JStr ''1.36.0''),
        (''references'',
           JList
             [JDict [(''kind'', JStr ''page''), (''url'', JStr ''/intro''),
                     (''data'', JStr ''out/content/intro.json'')],
              JDict [(''kind'', JStr ''page''), (''url'', JStr ''/guide''),
                     (''data'', JStr ''out/content/guide.json'')],
              JDict [(''identifier'', JStr ''intro''), (''kind'', JStr ''heading''),
                     (''data'', JStr ''out/content/intro.json''), (''url'', JStr ''/intro'')],
              JDict [(''identifier'', JStr ''fig-1''), (''kind'', JStr ''figure''),
                     (''data'', JStr ''out/content/intro.json''), (''url'', JStr ''/intro'')],
              JDict [(''identifier'', JStr ''eq-1''), (''kind'', JStr ''math:inline''),
                     (''data'', JStr ''out/content/guide.json''), (''url'', JStr ''/guide'')]])]"

definition sample_finished :: filesystem where
  "sample_finished =
     sample_built\<lparr>files := (files sample_built)(''out/myst.xref.json'' \<mapsto> sample_manifest)\<rparr>"

text \<open>
  A second corpus: two documents with the same basename, and the output trees after
  writing the first and then the second of them with either builder.
\<close>

definition collide_builder :: builder where
  "collide_builder =
     \<lparr> env = \<lparr> found_docs = [''a/index'', ''b/index''], all_docs = {},
               doc2path = (\<lambda>d. ''src/'' @ d @ ''.rst'') \<rparr>,
       outdir = ''out'' \<rparr>"

definition collide_sources :: "string \<rightharpoonup> string" where
  "collide_sources = [''src/a/index.rst'' \<mapsto> ''A'', ''src/b/index.rst'' \<mapsto> ''B'']"

definition page_a :: node where
  "page_a = Node [(''type'', ''root'')] [Node [(''type'', ''text''), (''value'', ''A'')] []]"

definition page_b :: node where
  "page_b = Node [(''type'', ''root'')] [Node [(''type'', ''text''), (''value'', ''B'')] []]"

definition collide_myst1 :: filesystem where
  "collide_myst1 =
     \<lparr> dirs = {''out''},
       files = [''out/index.myst.json''
                  \<mapsto> JDict [(''kind'', JStr ''Article''), (''mdast'', JAst page_a)]] \<rparr>"

definition collide_myst2 :: filesystem where
  "collide_myst2 =
     \<lparr> dirs = {''out''},
       files = [''out/index.myst.json''
                  \<mapsto> JDict [(''kind'', JStr ''Article''), (''mdast'', JAst page_b)]] \<rparr>"

definition collide_xref1 :: filesystem where
  "collide_xref1 =
     \<lparr> dirs = {''out'', ''out/content''},
       files = [''out/content/index.json''
                  \<mapsto> xref_artifact sample_ext ''a/index'' ''A'' page_a] \<rparr>"

definition collide_xref2 :: filesystem where
  "collide_xref2 =
     \<lparr> dirs = {''out'', ''out/content''},
       files = [''out/content/index.json''
                  \<mapsto> xref_artifact sample_ext ''b/index'' ''B'' page_b] \<rparr>"

text \<open>
  The two links of \<open>intro\<close> and the results of parsing their URLs.
\<close>

definition guide_link :: node where
  "guide_link =
     Node [(''type'', ''link''), (''url'', ''guide#setup'')]
       [Node [(''type'', ''text''), (''value'', ''the guide'')] []]"

definition guide_parsed :: parse_result where
  "guide_parsed =
     \<lparr> scheme = [], netloc = [], path = ''guide'', params = [], query = [],
       fragment = ''setup'' \<rparr>"

definition external_link :: node where
  "external_link = Node [(''type'', ''link''), (''url'', ''https://example.org/guide'')] []"

definition external_parsed :: parse_result where
  "external_parsed =
     \<lparr> scheme = ''https'', netloc = ''example.org'', path = ''/guide'', params = [],
       query = [], fragment = [] \<rparr>"

text \<open>
  A third corpus, in which the rewritten name of a document is itself the name of a
  document, and a tree with one link, before and after one and two rewrites.
\<close>

definition twice_builder :: builder where
  "twice_builder =
     \<lparr> env = \<lparr> found_docs = [''a'', ''a.myst.json''], all_docs = {},
               doc2path = (\<lambda>d. ''src/'' @ d @ ''.rst'') \<rparr>,
       outdir = ''out'' \<rparr>"

definition link_a :: node where
  "link_a = Node [(''type'', ''root'')] [Node [(''type'', ''link''), (''url'', ''a'')] []]"

definition link_a_once :: node where
  "link_a_once =
     Node [(''type'', ''root'')] [Node [(''type'', ''link''), (''url'', ''a.myst.json'')] []]"

definition link_a_twice :: node where
  "link_a_twice =
     Node [(''type'', ''root'')]
       [Node [(''type'', ''link''), (''url'', ''a.myst.json.myst.json'')] []]"

text \<open>
  Modification times of the sample: the source of \<open>intro\<close> is newer than its outputs, the
  source of \<open>guide\<close> has been deleted.
\<close>

definition sample_getmtime :: "string \<Rightarrow> real option" where
  "sample_getmtime p =
     (if p = ''src/intro.rst'' then Some 5
      else if p = ''out/intro.myst.json'' then Some 3
      else if p = ''out/content/intro.json'' then Some 3
      else if p = ''out/content/guide.json'' then Some 4
      else None)"

text \<open>Equations for evaluating the definitions on the sample.\<close>

lemmas sample_defs = sample_ext_def sample_builder_def sample_sources_def sample_fs_def
  intro_mdast_def guide_mdast_def intro_written_def sample_built_def

lemmas path_defs = myst_slugify_def xref_slugify_def basename_def path_join_def parent_def
  myst_get_output_path_def xref_get_target_path_def get_source_path_def manifest_path_def

lemmas url_defs = urlparse_def urlsplit_def urlunparse_def urlunsplit_def splitparams_def
  split_first_def splitnetloc2_def has_scheme_def is_ascii_alpha_def scheme_chars_def
  ascii_lowercase_def ascii_uppercase_def c0_control_or_space_def unsafe_url_byte_def
  uses_params_def uses_netloc_def checknetloc_def brackets_ok_def lower_char_def
  netloc_delim_def bracketed_host_def

declare walk_queue.simps [simp del]

section \<open>Staleness: results\<close>

lemma myst_outdated_loop_mem:
  "d \<in> set (myst_outdated_loop x b getmtime ds) \<longleftrightarrow>
     d \<in> set ds \<and>
     (d \<notin> all_docs (env b) \<or>
      (\<exists>s. getmtime (get_source_path b d) = Some s \<and>
           s > (case getmtime (myst_get_output_path x b d) of Some t \<Rightarrow> t | None \<Rightarrow> 0)))"
  by (induction ds) (auto simp: Let_def split: option.splits)

lemma xref_outdated_loop_mem:
  "d \<in> set (xref_outdated_loop x b getmtime ds) \<longleftrightarrow>
     d \<in> set ds \<and>
     (d \<notin> all_docs (env b) \<or>
      (\<exists>s. getmtime (doc2path (env b) d) = Some s \<and>
           s > (case getmtime (xref_get_target_path x b d) of Some t \<Rightarrow> t | None \<Rightarrow> 0)))"
  by (induction ds) (auto simp: Let_def split: option.splits)

text \<open>
  Claim C1. For a document of \<open>found_docs\<close>, both staleness detectors yield it exactly
  when it was never built (it is not in \<open>all_docs\<close>) or its source can be statted and
  the source time is strictly greater than the output time, the output time being 0 when
  the output cannot be statted. Equal times therefore leave a built document out.
\<close>

theorem get_outdated_docs_stale_iff:
  assumes "d \<in> set (found_docs (env b))"
  shows "(d \<in> set (myst_get_outdated_docs x b getmtime) \<longleftrightarrow>
            d \<notin> all_docs (env b) \<or>
            (\<exists>s. getmtime (get_source_path b d) = Some s \<and>
                 s > (case getmtime (myst_get_output_path x b d) of
                        Some t \<Rightarrow> t | None \<Rightarrow> 0)))
       \<and> (d \<in> set (xref_get_outdated_docs x b getmtime) \<longleftrightarrow>
            d \<notin> all_docs (env b) \<or>
            (\<exists>s. getmtime (doc2path (env b) d) = Some s \<and>
                 s > (case getmtime (xref_get_target_path x b d) of
                        Some t \<Rightarrow> t | None \<Rightarrow> 0)))"
  using assms
  by (auto simp: myst_get_outdated_docs_def xref_get_outdated_docs_def
        myst_outdated_loop_mem xref_outdated_loop_mem split: option.splits)

theorem get_outdated_docs_stale_iff_witness:
  "''intro'' \<in> set (found_docs (env sample_builder))
   \<and> ''intro'' \<in> set (myst_get_outdated_docs sample_ext sample_builder sample_getmtime)
   \<and> ''intro'' \<in> set (xref_get_outdated_docs sample_ext sample_builder sample_getmtime)"
  using get_outdated_docs_stale_iff
          [of "''intro''" sample_builder sample_ext sample_getmtime]
  by (simp add: sample_builder_def sample_ext_def sample_getmtime_def get_source_path_def
        myst_get_output_path_def xref_get_target_path_def myst_slugify_def xref_slugify_def
        path_join_def basename_def)

lemma myst_outdated_loop_skip:
  assumes "d \<in> all_docs (env b)" and "getmtime (get_source_path b d) = None"
  shows "myst_outdated_loop x b getmtime ds =
         myst_outdated_loop x b getmtime (filter (\<lambda>e. e \<noteq> d) ds)"
  using assms by (induction ds) (auto simp: Let_def split: option.splits)

lemma xref_outdated_loop_skip:
  assumes "d \<in> all_docs (env b)" and "getmtime (doc2path (env b) d) = None"
  shows "xref_outdated_loop x b getmtime ds =
         xref_outdated_loop x b getmtime (filter (\<lambda>e. e \<noteq> d) ds)"
  using assms by (induction ds) (auto simp: Let_def split: option.splits)

text \<open>
  Claim C8. A previously built document whose source cannot be statted is left out of
  the stale set by both detectors, and the detectors yield exactly what they would yield
  if the document were not in \<open>found_docs\<close> at all. The model has no error result for
  the detectors: the only exception of \<open>os.path.getmtime\<close> is caught in the loop.
\<close>

theorem get_outdated_docs_missing_source:
  assumes "d \<in> all_docs (env b)" and "getmtime (doc2path (env b) d) = None"
  shows "d \<notin> set (myst_get_outdated_docs x b getmtime)
       \<and> d \<notin> set (xref_get_outdated_docs x b getmtime)
       \<and> myst_get_outdated_docs x b getmtime =
           myst_outdated_loop x b getmtime (filter (\<lambda>e. e \<noteq> d) (found_docs (env b)))
       \<and> xref_get_outdated_docs x b getmtime =
           xref_outdated_loop x b getmtime (filter (\<lambda>e. e \<noteq> d) (found_docs (env b)))"
proof -
  have src: "getmtime (get_source_path b d) = None"
    using assms(2) by (simp add: get_source_path_def)
  have "d \<notin> set (myst_get_outdated_docs x b getmtime)"
    using assms(1) src by (simp add: myst_get_outdated_docs_def myst_outdated_loop_mem)
  moreover have "d \<notin> set (xref_get_outdated_docs x b getmtime)"
    using assms by (simp add: xref_get_outdated_docs_def xref_outdated_loop_mem)
  moreover have "myst_get_outdated_docs x b getmtime =
      myst_outdated_loop x b getmtime (filter (\<lambda>e. e \<noteq> d) (found_docs (env b)))"
    unfolding myst_get_outdated_docs_def
    using assms(1) src by (rule myst_outdated_loop_skip)
  moreover have "xref_get_outdated_docs x b getmtime =
      xref_outdated_loop x b getmtime (filter (\<lambda>e. e \<noteq> d) (found_docs (env b)))"
    unfolding xref_get_outdated_docs_def
    using assms by (rule xref_outdated_loop_skip)
  ultimately show ?thesis by simp
qed

theorem get_outdated_docs_missing_source_witness:
  "''guide'' \<in> all_docs (env sample_builder)
   \<and> sample_getmtime (doc2path (env sample_builder) ''guide'') = None
   \<and> ''guide'' \<notin> set (myst_get_outdated_docs sample_ext sample_builder sample_getmtime)
   \<and> ''guide'' \<notin> set (xref_get_outdated_docs sample_ext sample_builder sample_getmtime)"
proof -
  have built: "''guide'' \<in> all_docs (env sample_builder)"
    by (simp add: sample_builder_def)
  have gone: "sample_getmtime (doc2path (env sample_builder) ''guide'') = None"
    by (simp add: sample_builder_def sample_getmtime_def)
  from get_outdated_docs_missing_source
         [where d = "''guide''" and b = sample_builder and getmtime = sample_getmtime
            and x = sample_ext, OF built gone] built gone
  show ?thesis by blast
qed

text \<open>
  Claim C2. For a node with a \<open>type\<close>, the reference kind is: for a container, its
  \<open>kind\<close> if present and \<open>figure\<close> otherwise; for any other type, \<open>type:kind\<close> if a
  \<open>kind\<close> is present and the bare type otherwise. The four nodes named by the claim
  classify as \<open>table\<close>, \<open>figure\<close>, \<open>math:inline\<close> and \<open>paragraph\<close>.
\<close>

theorem xref_kind_for_node_cases:
  assumes "map_of (items n) ''type'' = Some ty"
  shows "xref_kind_for_node n =
           Inr (if ty = ''container''
                then (case map_of (items n) ''kind'' of Some k \<Rightarrow> k | None \<Rightarrow> ''figure'')
                else (case map_of (items n) ''kind'' of
                        Some k \<Rightarrow> ty @ '':'' @ k | None \<Rightarrow> ty))
       \<and> xref_kind_for_node
            (Node [(''type'', ''container''), (''kind'', ''table''), (''identifier'', ''t1'')] [])
          = Inr ''table''
       \<and> xref_kind_for_node (Node [(''type'', ''container''), (''identifier'', ''f1'')] [])
          = Inr ''figure''
       \<and> xref_kind_for_node
            (Node [(''type'', ''math''), (''kind'', ''inline''), (''identifier'', ''m1'')] [])
          = Inr ''math:inline''
       \<and> xref_kind_for_node (Node [(''type'', ''paragraph''), (''identifier'', ''p1'')] [])
          = Inr ''paragraph''"
  using assms by (simp add: xref_kind_for_node_def split: option.splits)

theorem xref_kind_for_node_cases_witness:
  "map_of (items (Node [(''type'', ''math''), (''kind'', ''inline'')] [])) ''type''
     = Some ''math''
   \<and> xref_kind_for_node (Node [(''type'', ''math''), (''kind'', ''inline'')] [])
     = Inr ''math:inline''"
  using xref_kind_for_node_cases
          [of "Node [(''type'', ''math''), (''kind'', ''inline'')] []" "''math''"]
  by simp

section \<open>Parsing a rewritten URL\<close>

lemma split_on:
  "c \<in> set s \<Longrightarrow> takeWhile (\<lambda>d. d \<noteq> c) s @ c # tl (dropWhile (\<lambda>d. d \<noteq> c) s) = s"
proof -
  assume "c \<in> set s"
  then have "dropWhile (\<lambda>d. d \<noteq> c) s \<noteq> []" by (simp add: dropWhile_eq_Nil_conv)
  then have "hd (dropWhile (\<lambda>d. d \<noteq> c) s) = c"
    using hd_dropWhile [of "\<lambda>d. d \<noteq> c" s] by simp
  with \<open>dropWhile (\<lambda>d. d \<noteq> c) s \<noteq> []\<close>
  have "dropWhile (\<lambda>d. d \<noteq> c) s = c # tl (dropWhile (\<lambda>d. d \<noteq> c) s)"
    by (metis list.collapse)
  then show ?thesis
    by (metis takeWhile_dropWhile_id)
qed

lemma takeWhile_sep:
  "c \<notin> set a \<Longrightarrow> takeWhile (\<lambda>d. d \<noteq> c) (a @ c # b) = a"
  by (induction a) auto

lemma dropWhile_sep:
  "c \<notin> set a \<Longrightarrow> dropWhile (\<lambda>d. d \<noteq> c) (a @ c # b) = c # b"
  by (induction a) auto

lemma split_first_sep:
  "c \<notin> set a \<Longrightarrow> split_first c (a @ c # b) = (a, b)"
  by (simp add: split_first_def takeWhile_sep dropWhile_sep)

lemma last_segment_decomp:
  "url = rev (dropWhile (\<lambda>c. c \<noteq> CHR ''/'') (rev url))
         @ rev (takeWhile (\<lambda>c. c \<noteq> CHR ''/'') (rev url))"
  by (metis rev_append rev_rev_ident takeWhile_dropWhile_id)

lemma takeWhile_after_slash:
  "takeWhile (\<lambda>c. c \<noteq> CHR ''/'') (dropWhile (\<lambda>c. c \<noteq> CHR ''/'') s) = []"
  by (induction s) auto

lemma splitparams_fwd:
  assumes "CHR '';'' \<in> set url" and "splitparams url = (a, b)"
  shows "CHR '';'' \<notin> set (takeWhile (\<lambda>c. c \<noteq> CHR ''/'') (rev a))
       \<and> CHR ''/'' \<notin> set b
       \<and> ((url = a \<and> b = []) \<or> url = a @ CHR '';'' # b)"
proof (cases "CHR ''/'' \<in> set url")
  case False
  with assms(2) have a: "a = takeWhile (\<lambda>c. c \<noteq> CHR '';'') url"
    and b: "b = tl (dropWhile (\<lambda>c. c \<noteq> CHR '';'') url)"
    by (simp_all add: splitparams_def)
  have url: "a @ CHR '';'' # b = url"
    unfolding a b by (rule split_on [OF assms(1)])
  have "CHR '';'' \<notin> set a" unfolding a by (auto dest: set_takeWhileD)
  then have "CHR '';'' \<notin> set (takeWhile (\<lambda>c. c \<noteq> CHR ''/'') (rev a))"
    by (auto dest: set_takeWhileD)
  moreover have "CHR ''/'' \<notin> set b"
  proof
    assume "CHR ''/'' \<in> set b"
    then have "CHR ''/'' \<in> set (a @ CHR '';'' # b)" by simp
    with False show False by (simp only: url)
  qed
  ultimately show ?thesis using url by blast
next
  case True
  define seg where "seg = rev (takeWhile (\<lambda>c. c \<noteq> CHR ''/'') (rev url))"
  define pre where "pre = rev (dropWhile (\<lambda>c. c \<noteq> CHR ''/'') (rev url))"
  have url: "pre @ seg = url"
    unfolding pre_def seg_def by (rule last_segment_decomp [symmetric])
  have seg_noslash: "CHR ''/'' \<notin> set seg"
    unfolding seg_def by (auto dest: set_takeWhileD)
  have sp: "splitparams url =
              (if CHR '';'' \<notin> set seg then (url, [])
               else (pre @ takeWhile (\<lambda>c. c \<noteq> CHR '';'') seg,
                     tl (dropWhile (\<lambda>c. c \<noteq> CHR '';'') seg)))"
    using True by (simp add: splitparams_def Let_def seg_def pre_def)
  show ?thesis
  proof (cases "CHR '';'' \<in> set seg")
    case False
    with assms(2) sp have ab: "a = url" "b = []" by simp_all
    from False have "CHR '';'' \<notin> set (takeWhile (\<lambda>c. c \<noteq> CHR ''/'') (rev url))"
      by (simp add: seg_def)
    with ab show ?thesis by simp
  next
    case semi: True
    define s1 where "s1 = takeWhile (\<lambda>c. c \<noteq> CHR '';'') seg"
    define s2 where "s2 = tl (dropWhile (\<lambda>c. c \<noteq> CHR '';'') seg)"
    have seg: "s1 @ CHR '';'' # s2 = seg"
      unfolding s1_def s2_def by (rule split_on [OF semi])
    from assms(2) sp semi have a: "a = pre @ s1" and b: "b = s2"
      by (simp_all add: s1_def s2_def)
    have whole: "url = a @ CHR '';'' # b"
      unfolding a b using url seg by simp
    have "set s2 \<subseteq> set seg"
      using arg_cong [OF seg, of set] by auto
    with seg_noslash b have noslash: "CHR ''/'' \<notin> set b" by blast
    have s1_nosemi: "CHR '';'' \<notin> set s1"
      unfolding s1_def by (auto dest: set_takeWhileD)
    have "rev a = rev s1 @ dropWhile (\<lambda>c. c \<noteq> CHR ''/'') (rev url)"
      by (simp add: a pre_def)
    then have "set (takeWhile (\<lambda>c. c \<noteq> CHR ''/'') (rev a)) \<subseteq> set s1"
      by (auto simp: takeWhile_append takeWhile_after_slash dest: set_takeWhileD
            split: if_splits)
    with s1_nosemi have "CHR '';'' \<notin> set (takeWhile (\<lambda>c. c \<noteq> CHR ''/'') (rev a))"
      by blast
    with noslash whole show ?thesis by blast
  qed
qed

lemma splitparams_bwd:
  assumes "CHR '';'' \<notin> set (takeWhile (\<lambda>c. c \<noteq> CHR ''/'') (rev a))"
    and "CHR ''/'' \<notin> set b"
  shows "splitparams (a @ CHR '';'' # b) = (a, b)"
proof (cases "CHR ''/'' \<in> set a")
  case False
  then have "takeWhile (\<lambda>c. c \<noteq> CHR ''/'') (rev a) = rev a"
    by (auto simp: takeWhile_eq_all_conv)
  with assms(1) have "CHR '';'' \<notin> set a" by simp
  with False assms(2) show ?thesis
    by (simp add: splitparams_def takeWhile_sep dropWhile_sep)
next
  case True
  define sa where "sa = rev (takeWhile (\<lambda>c. c \<noteq> CHR ''/'') (rev a))"
  define pa where "pa = rev (dropWhile (\<lambda>c. c \<noteq> CHR ''/'') (rev a))"
  have a: "pa @ sa = a"
    unfolding pa_def sa_def by (rule last_segment_decomp [symmetric])
  have sa: "CHR '';'' \<notin> set sa" using assms(1) by (simp add: sa_def)
  have tw: "takeWhile (\<lambda>c. c \<noteq> CHR ''/'') (rev b @ CHR '';'' # rev a)
              = rev b @ CHR '';'' # takeWhile (\<lambda>c. c \<noteq> CHR ''/'') (rev a)"
    using assms(2) by (simp add: takeWhile_append)
  have dw: "dropWhile (\<lambda>c. c \<noteq> CHR ''/'') (rev b @ CHR '';'' # rev a)
              = dropWhile (\<lambda>c. c \<noteq> CHR ''/'') (rev a)"
    using assms(2) by (simp add: dropWhile_append)
  have seg: "rev (takeWhile (\<lambda>c. c \<noteq> CHR ''/'') (rev (a @ CHR '';'' # b))) = sa @ CHR '';'' # b"
    by (simp add: tw sa_def)
  have pre: "rev (dropWhile (\<lambda>c. c \<noteq> CHR ''/'') (rev (a @ CHR '';'' # b))) = pa"
    by (simp add: dw pa_def)
  have "splitparams (a @ CHR '';'' # b) = (pa @ sa, b)"
    using True sa
    by (simp add: splitparams_def seg pre takeWhile_sep dropWhile_sep del: rev_append rev.simps)
  then show ?thesis by (simp only: a)
qed

lemma splitparams_none:
  assumes "CHR '';'' \<in> set a"
    and "CHR '';'' \<notin> set (takeWhile (\<lambda>c. c \<noteq> CHR ''/'') (rev a))"
  shows "splitparams a = (a, [])"
proof -
  have "CHR ''/'' \<in> set a"
  proof (rule ccontr)
    assume "CHR ''/'' \<notin> set a"
    then have "takeWhile (\<lambda>c. c \<noteq> CHR ''/'') (rev a) = rev a"
      by (auto simp: takeWhile_eq_all_conv)
    with assms show False by simp
  qed
  with assms(2) show ?thesis by (simp add: splitparams_def)
qed

lemma scheme_chars_delims:
  "CHR '';'' \<notin> set scheme_chars" "CHR ''?'' \<notin> set scheme_chars"
  "CHR ''#'' \<notin> set scheme_chars" "\<not> is_ascii_alpha (CHR ''/'')"
  by (simp_all add: scheme_chars_def ascii_lowercase_def ascii_uppercase_def
        is_ascii_alpha_def)

lemma has_scheme_prefix:
  assumes "CHR '':'' \<in> set p"
  shows "has_scheme (p @ r) = has_scheme p"
proof -
  from assms have "p \<noteq> []" by auto
  moreover from assms have "takeWhile (\<lambda>c. c \<noteq> CHR '':'') (p @ r) = takeWhile (\<lambda>c. c \<noteq> CHR '':'') p"
    by (simp add: takeWhile_append1 [OF assms])
  ultimately show ?thesis using assms by (simp add: has_scheme_def)
qed

lemma no_scheme_extend:
  assumes "\<not> has_scheme p"
    and "r = [] \<or> hd r = CHR '';'' \<or> hd r = CHR ''?'' \<or> hd r = CHR ''#''"
  shows "\<not> has_scheme (p @ r)"
proof (cases "CHR '':'' \<in> set p")
  case True
  with assms(1) show ?thesis by (simp add: has_scheme_prefix)
next
  case False
  show ?thesis
  proof (cases r)
    case Nil
    with assms(1) show ?thesis by simp
  next
    case (Cons d ds)
    with assms(2) have d: "d = CHR '';'' \<or> d = CHR ''?'' \<or> d = CHR ''#''" by simp
    then have "d \<noteq> CHR '':''" by auto
    from False have "takeWhile (\<lambda>c. c \<noteq> CHR '':'') (p @ r)
                       = p @ takeWhile (\<lambda>c. c \<noteq> CHR '':'') r"
      by (intro takeWhile_append2) auto
    with Cons \<open>d \<noteq> CHR '':''\<close> have "d \<in> set (takeWhile (\<lambda>c. c \<noteq> CHR '':'') (p @ r))"
      by simp
    moreover from d have "d \<notin> set scheme_chars"
      using scheme_chars_delims by auto
    ultimately show ?thesis
      by (auto simp: has_scheme_def list_all_iff)
  qed
qed

lemma no_scheme_suffix:
  assumes "\<not> has_scheme p"
  shows "\<not> has_scheme (p @ ''.myst.json'')"
proof (cases "CHR '':'' \<in> set p")
  case True
  with assms show ?thesis by (simp add: has_scheme_prefix)
next
  case False
  then show ?thesis by (simp add: has_scheme_def)
qed

lemma no_scheme_slash: "hd u = CHR ''/'' \<Longrightarrow> \<not> has_scheme u"
  using scheme_chars_delims(4) by (simp add: has_scheme_def)

lemma netloc_split:
  assumes "list_all (\<lambda>c. \<not> netloc_delim c) nl" and "rest = [] \<or> netloc_delim (hd rest)"
  shows "splitnetloc2 (''//'' @ nl @ rest) = (nl, rest)"
proof -
  have all: "\<And>c. c \<in> set nl \<Longrightarrow> \<not> netloc_delim c"
    using assms(1) by (simp add: list_all_iff)
  have r: "takeWhile (\<lambda>c. \<not> netloc_delim c) rest = []"
          "dropWhile (\<lambda>c. \<not> netloc_delim c) rest = rest"
    using assms(2) by (cases rest; simp)+
  have "takeWhile (\<lambda>c. \<not> netloc_delim c) (nl @ rest) = nl"
    using all by (simp add: takeWhile_append2 r)
  moreover have "dropWhile (\<lambda>c. \<not> netloc_delim c) (nl @ rest) = rest"
    using all by (simp add: dropWhile_append2 r)
  ultimately show ?thesis by (simp add: splitnetloc2_def)
qed

lemma urlsplit_steps:
  assumes "dropWhile c0_control_or_space u = u"
    and "filter (\<lambda>c. \<not> unsafe_url_byte c) u = u"
    and "\<not> has_scheme u"
    and "(if take 2 u = ''//'' then splitnetloc2 u else ([], u)) = (nl, url3)"
    and "take 2 u = ''//'' \<longrightarrow> brackets_ok x nl"
    and "(if CHR ''#'' \<in> set url3 then split_first (CHR ''#'') url3 else (url3, []))
           = (url4, frag)"
    and "(if CHR ''?'' \<in> set url4 then split_first (CHR ''?'') url4 else (url4, []))
           = (url5, qry)"
    and "checknetloc x nl"
  shows "urlsplit x u = Inr ([], nl, url5, qry, frag)"
  unfolding urlsplit_def assms(1,2) Let_def
  using assms(3,5,8) by (simp add: assms(4,6,7))

lemma urlsplit_assembled:
  assumes body: "body \<noteq> []" "\<not> c0_control_or_space (hd body)"
    and clean: "list_all (\<lambda>c. \<not> unsafe_url_byte c) (nl @ url1 @ qry @ frag)"
    and nosch: "\<not> has_scheme (body @ q @ f)"
    and q: "q = (if qry \<noteq> [] then CHR ''?'' # qry else [])"
    and f: "f = (if frag \<noteq> [] then CHR ''#'' # frag else [])"
    and shape: "(take 2 (body @ q @ f) = ''//'' \<and> body = ''//'' @ nl @ url1
                   \<and> list_all (\<lambda>c. \<not> netloc_delim c) nl \<and> hd url1 = CHR ''/''
                   \<and> brackets_ok x nl)
                \<or> (take 2 (body @ q @ f) \<noteq> ''//'' \<and> body = url1 \<and> nl = [])"
    and url1: "url1 \<noteq> []" "CHR ''?'' \<notin> set url1" "CHR ''#'' \<notin> set url1"
    and qry: "CHR ''#'' \<notin> set qry"
    and chk: "checknetloc x nl"
  shows "urlsplit x (body @ q @ f) = Inr ([], nl, url1, qry, frag)"
proof -
  define u where "u = body @ q @ f"
  define url3 where "url3 = url1 @ q @ f"
  define url4 where "url4 = url1 @ q"
  have strip: "dropWhile c0_control_or_space u = u"
    unfolding u_def using body by (cases body) simp_all
  have unsafe_body: "list_all (\<lambda>c. \<not> unsafe_url_byte c) body"
    using shape clean by (auto simp: unsafe_url_byte_def)
  have "list_all (\<lambda>c. \<not> unsafe_url_byte c) u"
    unfolding u_def using unsafe_body clean q f by (auto simp: unsafe_url_byte_def)
  then have filt: "filter (\<lambda>c. \<not> unsafe_url_byte c) u = u"
    by (simp add: list_all_iff)
  have frag_split:
    "(if CHR ''#'' \<in> set url3 then split_first (CHR ''#'') url3 else (url3, []))
       = (url4, frag)"
  proof (cases "frag = []")
    case True
    with url1 qry q f show ?thesis by (auto simp: url3_def url4_def)
  next
    case False
    have "CHR ''#'' \<notin> set (url1 @ q)" using url1 qry q by auto
    from split_first_sep [OF this, of frag] False f show ?thesis
      by (simp add: url3_def url4_def)
  qed
  have qry_split:
    "(if CHR ''?'' \<in> set url4 then split_first (CHR ''?'') url4 else (url4, []))
       = (url1, qry)"
  proof (cases "qry = []")
    case True
    with url1 q show ?thesis by (auto simp: url4_def)
  next
    case False
    from split_first_sep [OF url1(2), of qry] False q show ?thesis
      by (simp add: url4_def)
  qed
  have nl_split: "(if take 2 u = ''//'' then splitnetloc2 u else ([], u)) = (nl, url3)"
    and br: "take 2 u = ''//'' \<longrightarrow> brackets_ok x nl"
  proof -
    from shape have "(if take 2 u = ''//'' then splitnetloc2 u else ([], u)) = (nl, url3)
                     \<and> (take 2 u = ''//'' \<longrightarrow> brackets_ok x nl)"
    proof
      assume a: "take 2 (body @ q @ f) = ''//'' \<and> body = ''//'' @ nl @ url1
                 \<and> list_all (\<lambda>c. \<not> netloc_delim c) nl \<and> hd url1 = CHR ''/''
                 \<and> brackets_ok x nl"
      then have "netloc_delim (hd url3)"
        using url1(1) by (simp add: netloc_delim_def url3_def)
      with a have "splitnetloc2 (''//'' @ nl @ url3) = (nl, url3)"
        by (intro netloc_split) simp_all
      moreover have "u = ''//'' @ nl @ url3"
        using a by (simp add: u_def url3_def)
      moreover have "take 2 u = ''//''"
        unfolding u_def using a by (rule conjunct1)
      ultimately show ?thesis using a by simp
    next
      assume a: "take 2 (body @ q @ f) \<noteq> ''//'' \<and> body = url1 \<and> nl = []"
      then have "take 2 u \<noteq> ''//''" "u = url3" "nl = []"
        unfolding u_def url3_def by blast+
      then show ?thesis by simp
    qed
    then show "(if take 2 u = ''//'' then splitnetloc2 u else ([], u)) = (nl, url3)"
      and "take 2 u = ''//'' \<longrightarrow> brackets_ok x nl" by simp_all
  qed
  have "\<not> has_scheme u" unfolding u_def by (rule nosch)
  from urlsplit_steps [OF strip filt this nl_split br frag_split qry_split chk]
  show ?thesis by (simp only: u_def)
qed

lemma take2_not_slashes:
  assumes "url1 \<noteq> []" and "take 2 url1 \<noteq> ''//''"
    and "r = [] \<or> hd r = CHR ''?'' \<or> hd r = CHR ''#''"
  shows "take 2 (url1 @ r) \<noteq> ''//''"
proof (cases url1)
  case Nil
  with assms(1) show ?thesis by simp
next
  case (Cons c cs)
  show ?thesis
  proof (cases cs)
    case (Cons d ds)
    with \<open>url1 = c # cs\<close> assms(2) show ?thesis by simp
  next
    case Nil
    with \<open>url1 = c # cs\<close> assms(3) show ?thesis by (cases r) auto
  qed
qed

lemma urlparse_urlunparse:
  assumes "wf_relative x P"
  shows "urlparse x (urlunparse P) = Inr P"
proof -
  define url1 where "url1 = (if params P \<noteq> [] then path P @ '';'' @ params P else path P)"
  define q where "q = (if query P \<noteq> [] then CHR ''?'' # query P else [])"
  define f where "f = (if fragment P \<noteq> [] then CHR ''#'' # fragment P else [])"
  define dbl where "dbl \<longleftrightarrow> netloc P \<noteq> [] \<or> take 2 url1 = ''//''"
  define body where "body = (if dbl then ''//'' @ netloc P @ url1 else url1)"
  from assms have
    sch: "scheme P = []" and pne: "path P \<noteq> []" and
    c0: "\<not> c0_control_or_space (hd (path P))" and
    nos: "\<not> has_scheme (path P)" and
    nlsl: "netloc P \<noteq> [] \<longrightarrow> hd (path P) = CHR ''/''" and
    nld: "list_all (\<lambda>c. \<not> netloc_delim c) (netloc P)" and
    br: "brackets_ok x (netloc P)" and chk: "checknetloc x (netloc P)" and
    pq: "CHR ''?'' \<notin> set (path P)" and ph: "CHR ''#'' \<notin> set (path P)" and
    seg: "CHR '';'' \<notin> set (takeWhile (\<lambda>c. c \<noteq> CHR ''/'') (rev (path P)))" and
    prs: "CHR ''/'' \<notin> set (params P)" and prq: "CHR ''?'' \<notin> set (params P)" and
    prh: "CHR ''#'' \<notin> set (params P)" and
    qh: "CHR ''#'' \<notin> set (query P)" and
    clean: "list_all (\<lambda>c. \<not> unsafe_url_byte c)
              (netloc P @ path P @ params P @ query P @ fragment P)"
    by (simp_all add: wf_relative_def)
  have u1: "url1 \<noteq> []" "hd url1 = hd (path P)"
    using pne by (simp_all add: url1_def)
  have u1q: "CHR ''?'' \<notin> set url1" and u1h: "CHR ''#'' \<notin> set url1"
    using pq ph prq prh by (simp_all add: url1_def)
  have slash: "hd url1 = CHR ''/''" if dbl
  proof (cases "netloc P \<noteq> []")
    case True
    with nlsl u1 show ?thesis by simp
  next
    case False
    with that have "take 2 url1 = ''//''" by (simp add: dbl_def)
    then show ?thesis by (cases url1) simp_all
  qed
  have unparse: "urlunparse P = body @ q @ f"
  proof (cases dbl)
    case True
    from slash [OF True] u1 have t1: "take 1 url1 = ''/''" by (cases url1) simp_all
    from True have d: "netloc P \<noteq> [] \<or> take 2 url1 = ''//''" by (simp add: dbl_def)
    have b: "body = ''//'' @ netloc P @ url1" using True by (simp add: body_def)
    from d t1 show ?thesis
      unfolding b q_def f_def
      by (auto simp: urlunparse_def urlunsplit_def sch url1_def [symmetric] Let_def)
  next
    case False
    then have d: "netloc P = []" "take 2 url1 \<noteq> ''//''" by (simp_all add: dbl_def)
    have b: "body = url1" using False by (simp add: body_def)
    from d show ?thesis
      unfolding b q_def f_def
      by (auto simp: urlunparse_def urlunsplit_def sch url1_def [symmetric] Let_def)
  qed
  have qf: "q @ f = [] \<or> hd (q @ f) = CHR ''?'' \<or> hd (q @ f) = CHR ''#''"
    by (simp add: q_def f_def)
  have nos1: "\<not> has_scheme url1"
    unfolding url1_def using no_scheme_extend [OF nos, of "'';'' @ params P"] nos by simp
  have body_ne: "body \<noteq> []" using u1 by (simp add: body_def)
  have body_c0: "\<not> c0_control_or_space (hd body)"
    using c0 u1 by (simp add: body_def c0_control_or_space_def)
  have nosch: "\<not> has_scheme (body @ q @ f)"
  proof (cases dbl)
    case True
    then have "hd (body @ q @ f) = CHR ''/''" by (simp add: body_def)
    then show ?thesis by (rule no_scheme_slash)
  next
    case False
    have "\<not> has_scheme (url1 @ q @ f)"
      using qf by (intro no_scheme_extend [OF nos1]) blast
    with False show ?thesis by (simp add: body_def)
  qed
  have shape: "(take 2 (body @ q @ f) = ''//'' \<and> body = ''//'' @ netloc P @ url1
                   \<and> list_all (\<lambda>c. \<not> netloc_delim c) (netloc P) \<and> hd url1 = CHR ''/''
                   \<and> brackets_ok x (netloc P))
                \<or> (take 2 (body @ q @ f) \<noteq> ''//'' \<and> body = url1 \<and> netloc P = [])"
  proof (cases dbl)
    case True
    with slash [OF True] nld br show ?thesis by (simp add: body_def)
  next
    case False
    then have "take 2 url1 \<noteq> ''//''" "netloc P = []" by (simp_all add: dbl_def)
    with take2_not_slashes [OF u1(1) this(1), of "q @ f"] qf False show ?thesis
      by (simp add: body_def)
  qed
  have clean1: "list_all (\<lambda>c. \<not> unsafe_url_byte c)
                  (netloc P @ url1 @ query P @ fragment P)"
    using clean by (auto simp: url1_def unsafe_url_byte_def)
  have split: "urlsplit x (body @ q @ f) = Inr ([], netloc P, url1, query P, fragment P)"
    by (rule urlsplit_assembled [OF body_ne body_c0 clean1 nosch q_def f_def shape
          u1(1) u1q u1h qh chk])
  have sp: "(if CHR '';'' \<in> set url1 then splitparams url1 else (url1, []))
              = (path P, params P)"
  proof (cases "params P = []")
    case False
    then show ?thesis
      using splitparams_bwd [OF seg prs] by (simp add: url1_def)
  next
    case True
    then show ?thesis
      using splitparams_none [OF _ seg] by (auto simp: url1_def)
  qed
  have "urlparse x (urlunparse P)
          = Inr \<lparr> scheme = [], netloc = netloc P, path = path P, params = params P,
                  query = query P, fragment = fragment P \<rparr>"
    unfolding unparse urlparse_def split
    by (simp add: uses_params_def sp)
  with sch show ?thesis by simp
qed

lemma wf_relative_suffix:
  assumes "wf_relative x P"
  shows "wf_relative x (P\<lparr>path := path P @ ''.myst.json''\<rparr>)"
proof -
  from assms have pne: "path P \<noteq> []" and nos: "\<not> has_scheme (path P)"
    by (simp_all add: wf_relative_def)
  have tw: "takeWhile (\<lambda>c. c \<noteq> CHR ''/'') (rev (path P @ ''.myst.json''))
              = rev ''.myst.json'' @ takeWhile (\<lambda>c. c \<noteq> CHR ''/'') (rev (path P))"
    by simp
  from assms pne no_scheme_suffix [OF nos] show ?thesis
    unfolding wf_relative_def
    by (simp add: tw unsafe_url_byte_def del: rev_append rev.simps takeWhile.simps
          takeWhile_append1 takeWhile_append2)
qed

lemma urlsplit_relative:
  assumes "urlsplit x u = Inr (s, nl, p, q, f)"
    and "u1 = filter (\<lambda>c. \<not> unsafe_url_byte c) (dropWhile c0_control_or_space u)"
    and "\<not> has_scheme u1"
  shows "\<exists>url3 url4.
           s = [] \<and>
           (nl, url3) = (if take 2 u1 = ''//'' then splitnetloc2 u1 else ([], u1)) \<and>
           (take 2 u1 = ''//'' \<longrightarrow> brackets_ok x nl) \<and> checknetloc x nl \<and>
           (url4, f) = (if CHR ''#'' \<in> set url3 then split_first (CHR ''#'') url3
                        else (url3, [])) \<and>
           (p, q) = (if CHR ''?'' \<in> set url4 then split_first (CHR ''?'') url4
                     else (url4, []))"
proof -
  define nlp where "nlp = (if take 2 u1 = ''//'' then splitnetloc2 u1 else ([], u1))"
  define fp where "fp = (if CHR ''#'' \<in> set (snd nlp) then split_first (CHR ''#'') (snd nlp)
                         else (snd nlp, []))"
  define qp where "qp = (if CHR ''?'' \<in> set (fst fp) then split_first (CHR ''?'') (fst fp)
                         else (fst fp, []))"
  have eq: "urlsplit x u =
              (if take 2 u1 = ''//'' \<and> \<not> brackets_ok x (fst nlp) then Inl ValueError
               else if \<not> checknetloc x (fst nlp) then Inl ValueError
               else Inr ([], fst nlp, fst qp, snd qp, snd fp))"
    unfolding qp_def fp_def nlp_def urlsplit_def assms(2) [symmetric]
    using assms(3) by (simp add: Let_def split_def)
  from assms(1) have r: "s = []" "nl = fst nlp" "p = fst qp" "q = snd qp" "f = snd fp"
    and ok: "take 2 u1 = ''//'' \<longrightarrow> brackets_ok x nl" "checknetloc x nl"
    unfolding eq by (auto split: if_splits)
  have "(nl, snd nlp) = (if take 2 u1 = ''//'' then splitnetloc2 u1 else ([], u1))"
    unfolding r nlp_def [symmetric] by simp
  moreover have "(fst fp, f) = (if CHR ''#'' \<in> set (snd nlp)
                                 then split_first (CHR ''#'') (snd nlp) else (snd nlp, []))"
    unfolding r fp_def [symmetric] by simp
  moreover have "(p, q) = (if CHR ''?'' \<in> set (fst fp)
                            then split_first (CHR ''?'') (fst fp) else (fst fp, []))"
    unfolding r qp_def [symmetric] by simp
  ultimately show ?thesis using r(1) ok by blast
qed

lemma urlsplit_scheme:
  assumes "urlsplit x u = Inr (s, nl, p, q, f)"
    and "u1 = filter (\<lambda>c. \<not> unsafe_url_byte c) (dropWhile c0_control_or_space u)"
    and "has_scheme u1"
  shows "s \<noteq> []"
proof -
  from assms(3) have "takeWhile (\<lambda>c. c \<noteq> CHR '':'') u1 \<noteq> []"
    by (simp add: has_scheme_def)
  then have ne: "map lower_char (take (length (takeWhile (\<lambda>c. c \<noteq> CHR '':'') u1)) u1) \<noteq> []"
    by (cases u1) auto
  define i where "i = length (takeWhile (\<lambda>c. c \<noteq> CHR '':'') u1)"
  define nlp where "nlp = (if take 2 (drop (i + 1) u1) = ''//''
                           then splitnetloc2 (drop (i + 1) u1) else ([], drop (i + 1) u1))"
  define fp where "fp = (if CHR ''#'' \<in> set (snd nlp) then split_first (CHR ''#'') (snd nlp)
                         else (snd nlp, []))"
  define qp where "qp = (if CHR ''?'' \<in> set (fst fp) then split_first (CHR ''?'') (fst fp)
                         else (fst fp, []))"
  have eq: "urlsplit x u =
              (if take 2 (drop (i + 1) u1) = ''//'' \<and> \<not> brackets_ok x (fst nlp)
               then Inl ValueError
               else if \<not> checknetloc x (fst nlp) then Inl ValueError
               else Inr (map lower_char (take i u1), fst nlp, fst qp, snd qp, snd fp))"
    unfolding qp_def fp_def nlp_def i_def urlsplit_def assms(2) [symmetric]
    using assms(3) by (simp add: Let_def split_def)
  from assms(1) have "s = map lower_char (take i u1)"
    unfolding eq by (auto split: if_splits)
  with ne show ?thesis by (simp add: i_def)
qed

lemma split_first_facts:
  assumes "(a, b) = (if c \<in> set s then split_first c s else (s, []))"
  shows "c \<notin> set a \<and> set b \<subseteq> set s \<and> (\<exists>r. s = a @ r \<and> (r = [] \<or> hd r = c))"
proof (cases "c \<in> set s")
  case False
  with assms show ?thesis by simp
next
  case True
  with assms have a: "a = takeWhile (\<lambda>d. d \<noteq> c) s"
    and b: "b = tl (dropWhile (\<lambda>d. d \<noteq> c) s)"
    by (simp_all add: split_first_def)
  have s: "a @ c # b = s" unfolding a b by (rule split_on [OF True])
  have "c \<notin> set a" unfolding a by (auto dest: set_takeWhileD)
  moreover have "set b \<subseteq> set s" using arg_cong [OF s, of set] by auto
  moreover have "\<exists>r. s = a @ r \<and> (r = [] \<or> hd r = c)"
    using s by (intro exI [of _ "c # b"]) simp
  ultimately show ?thesis by blast
qed

lemma splitnetloc_facts:
  assumes "(nl, url3) = (if take 2 u1 = ''//'' then splitnetloc2 u1 else ([], u1))"
  shows "list_all (\<lambda>c. \<not> netloc_delim c) nl \<and> set nl \<subseteq> set u1 \<and> set url3 \<subseteq> set u1
       \<and> (take 2 u1 = ''//'' \<longrightarrow> url3 = [] \<or> netloc_delim (hd url3))
       \<and> (take 2 u1 \<noteq> ''//'' \<longrightarrow> nl = [] \<and> url3 = u1)"
proof (cases "take 2 u1 = ''//''")
  case False
  with assms show ?thesis by simp
next
  case True
  with assms have nl: "nl = takeWhile (\<lambda>c. \<not> netloc_delim c) (drop 2 u1)"
    and url3: "url3 = dropWhile (\<lambda>c. \<not> netloc_delim c) (drop 2 u1)"
    by (simp_all add: splitnetloc2_def)
  have "list_all (\<lambda>c. \<not> netloc_delim c) nl"
    unfolding nl by (auto simp: list_all_iff dest: set_takeWhileD)
  moreover have "set nl \<subseteq> set u1"
    unfolding nl by (auto dest: set_takeWhileD in_set_dropD)
  moreover have "set url3 \<subseteq> set u1"
    unfolding url3 by (auto dest: set_dropWhileD in_set_dropD)
  moreover have "url3 = [] \<or> netloc_delim (hd url3)"
    unfolding url3 using hd_dropWhile [of "\<lambda>c. \<not> netloc_delim c" "drop 2 u1"] by auto
  ultimately show ?thesis using True by simp
qed

lemma splitparams_facts:
  assumes "(a, b) = (if CHR '';'' \<in> set p then splitparams p else (p, []))"
  shows "CHR '';'' \<notin> set (takeWhile (\<lambda>c. c \<noteq> CHR ''/'') (rev a)) \<and> CHR ''/'' \<notin> set b
       \<and> set b \<subseteq> set p \<and> (\<exists>r. p = a @ r)"
proof (cases "CHR '';'' \<in> set p")
  case False
  with assms have "a = p" "b = []" by simp_all
  with False show ?thesis by (auto dest: set_takeWhileD)
next
  case True
  with assms have "splitparams p = (a, b)" by simp
  from splitparams_fwd [OF True this] show ?thesis by auto
qed

lemma hd_stripped:
  assumes "u1 = filter (\<lambda>c. \<not> unsafe_url_byte c) (dropWhile c0_control_or_space u)"
    and "u1 \<noteq> []"
  shows "\<not> c0_control_or_space (hd u1)"
proof (cases "dropWhile c0_control_or_space u")
  case Nil
  with assms show ?thesis by simp
next
  case (Cons y ys)
  with hd_dropWhile [of c0_control_or_space u] have y: "\<not> c0_control_or_space y" by simp
  then have "\<not> unsafe_url_byte y"
    by (auto simp: unsafe_url_byte_def c0_control_or_space_def)
  with Cons assms(1) y show ?thesis by simp
qed

lemma brackets_ok_empty: "brackets_ok x []"
  by (simp add: brackets_ok_def)

lemma urlparse_wf:
  assumes "urlparse x u = Inr P" and "scheme P = []" and "path P \<noteq> []"
  shows "wf_relative x P"
proof -
  define u1 where "u1 = filter (\<lambda>c. \<not> unsafe_url_byte c) (dropWhile c0_control_or_space u)"
  from assms(1) obtain s nl p q f where
    split: "urlsplit x u = Inr (s, nl, p, q, f)"
    by (cases "urlsplit x u") (auto simp: urlparse_def)
  obtain a b where
    ab: "(a, b) = (if s \<in> set uses_params \<and> CHR '';'' \<in> set p then splitparams p else (p, []))"
    by (metis surj_pair)
  have P: "P = \<lparr> scheme = s, netloc = nl, path = a, params = b, query = q, fragment = f \<rparr>"
    using assms(1) ab [symmetric] by (simp add: urlparse_def split)
  from P assms(2) have s: "s = []" by simp
  have nosch: "\<not> has_scheme u1"
    using urlsplit_scheme [OF split u1_def] s by blast
  from urlsplit_relative [OF split u1_def nosch] obtain url3 url4 where
    nl3: "(nl, url3) = (if take 2 u1 = ''//'' then splitnetloc2 u1 else ([], u1))" and
    br: "take 2 u1 = ''//'' \<longrightarrow> brackets_ok x nl" and chk: "checknetloc x nl" and
    f4: "(url4, f) = (if CHR ''#'' \<in> set url3 then split_first (CHR ''#'') url3
                      else (url3, []))" and
    pq: "(p, q) = (if CHR ''?'' \<in> set url4 then split_first (CHR ''?'') url4
                   else (url4, []))"
    by blast
  have ab': "(a, b) = (if CHR '';'' \<in> set p then splitparams p else (p, []))"
    using ab s by (simp add: uses_params_def)
  from splitnetloc_facts [OF nl3] have
    nld: "list_all (\<lambda>c. \<not> netloc_delim c) nl" and nl_sub: "set nl \<subseteq> set u1" and
    u3_sub: "set url3 \<subseteq> set u1" and
    dbl: "take 2 u1 = ''//'' \<longrightarrow> url3 = [] \<or> netloc_delim (hd url3)" and
    sgl: "take 2 u1 \<noteq> ''//'' \<longrightarrow> nl = [] \<and> url3 = u1"
    by blast+
  from split_first_facts [OF f4] obtain r3 where
    u4h: "CHR ''#'' \<notin> set url4" and f_sub: "set f \<subseteq> set url3" and u3: "url3 = url4 @ r3"
    by blast
  from split_first_facts [OF pq] obtain r2 where
    pqm: "CHR ''?'' \<notin> set p" and q_sub: "set q \<subseteq> set url4" and u4: "url4 = p @ r2"
    by blast
  from splitparams_facts [OF ab'] obtain r1 where
    seg: "CHR '';'' \<notin> set (takeWhile (\<lambda>c. c \<noteq> CHR ''/'') (rev a))" and
    bs: "CHR ''/'' \<notin> set b" and b_sub: "set b \<subseteq> set p" and p: "p = a @ r1"
    by blast
  from P assms(3) have ane: "a \<noteq> []" by simp
  have u3a: "url3 = a @ (r1 @ r2 @ r3)" using u3 u4 p by simp
  have p_sub: "set p \<subseteq> set url4" using u4 by auto
  have u4_sub: "set url4 \<subseteq> set url3" using u3 by auto
  have a_sub: "set a \<subseteq> set p" using p by auto
  have ah: "CHR ''#'' \<notin> set a" using a_sub p_sub u4h by blast
  have aq: "CHR ''?'' \<notin> set a" using a_sub pqm by blast
  have hd_a: "hd a = hd url3" using u3a ane by simp
  have u3ne: "url3 \<noteq> []" using u3a ane by simp
  have clean_u1: "\<And>c. c \<in> set u1 \<Longrightarrow> \<not> unsafe_url_byte c"
    by (simp add: u1_def)
  have "set a \<subseteq> set u1" using a_sub p_sub u4_sub u3_sub by blast
  moreover have "set b \<subseteq> set u1" using b_sub p_sub u4_sub u3_sub by blast
  moreover have "set q \<subseteq> set u1" using q_sub u4_sub u3_sub by blast
  moreover have "set f \<subseteq> set u1" using f_sub u3_sub by blast
  ultimately have "set (nl @ a @ b @ q @ f) \<subseteq> set u1"
    using nl_sub by simp
  with clean_u1 have clean: "list_all (\<lambda>c. \<not> unsafe_url_byte c) (nl @ a @ b @ q @ f)"
    unfolding list_all_iff by blast
  have heads: "\<not> c0_control_or_space (hd a) \<and> \<not> has_scheme a
                 \<and> (nl \<noteq> [] \<longrightarrow> hd a = CHR ''/'') \<and> brackets_ok x nl"
  proof (cases "take 2 u1 = ''//''")
    case True
    with dbl u3ne have "netloc_delim (hd url3)" by simp
    moreover have "hd a \<in> set a" using ane by simp
    ultimately have sl: "hd a = CHR ''/''"
      using hd_a ah aq by (auto simp: netloc_delim_def)
    then have "\<not> c0_control_or_space (hd a)"
      by (simp add: c0_control_or_space_def)
    with sl no_scheme_slash [OF sl] br True show ?thesis by simp
  next
    case False
    with sgl have nl: "nl = []" and u1: "u1 = a @ (r1 @ r2 @ r3)" using u3a by simp_all
    have "u1 \<noteq> []" using u1 ane by simp
    from hd_stripped [OF u1_def this] have "\<not> c0_control_or_space (hd a)"
      using u1 ane by simp
    moreover have "\<not> has_scheme a"
    proof
      assume h: "has_scheme a"
      then have "CHR '':'' \<in> set a" by (simp add: has_scheme_def)
      from has_scheme_prefix [OF this, of "r1 @ r2 @ r3"] h nosch u1 show False by simp
    qed
    ultimately show ?thesis using nl brackets_ok_empty by simp
  qed
  have bq: "CHR ''?'' \<notin> set b" using b_sub pqm by blast
  have bh: "CHR ''#'' \<notin> set b" using b_sub p_sub u4h by blast
  have qh: "CHR ''#'' \<notin> set q" using q_sub u4h by blast
  show ?thesis
    unfolding wf_relative_def P
    using s ane heads nld chk aq ah seg bs bq bh qh clean by simp
qed

section \<open>The walk reaches every node\<close>

lemma walk_queue_nodes:
  "snd ` set (walk_queue q) = (\<Union>r \<in> set q. set (subnodes (snd r)))"
proof (induction q rule: walk_queue.induct)
  case 1
  show ?case by (simp add: walk_queue.simps)
next
  case (2 p n queue)
  have kids: "(\<Union>r \<in> set (kids p n). set (subnodes (snd r)))
                = (\<Union>c \<in> set (children n). set (subnodes c))"
  proof -
    have "(\<Union>r \<in> set (kids p n). set (subnodes (snd r)))
            = (\<Union>c \<in> set (map snd (kids p n)). set (subnodes c))"
      by simp
    then show ?thesis by (simp only: map_snd_kids)
  qed
  have "set (subnodes n) = insert n (\<Union>c \<in> set (children n). set (subnodes c))"
    by (cases n) simp
  with 2 kids show ?case by (auto simp: walk_queue.simps)
qed

lemma breadth_first_walk_nodes:
  "snd ` set (breadth_first_walk tree) = set (subnodes tree)"
  by (simp add: breadth_first_walk_def walk_queue_nodes)

lemma find_by_type_empty:
  "find_by_type ty tree = [] \<longleftrightarrow>
     (\<forall>n \<in> set (subnodes tree). map_of (items n) ''type'' \<noteq> Some ty)"
proof -
  have "find_by_type ty tree = [] \<longleftrightarrow>
          (\<forall>n \<in> snd ` set (breadth_first_walk tree). map_of (items n) ''type'' \<noteq> Some ty)"
    by (auto simp: find_by_type_def filter_empty_conv)
  then show ?thesis by (simp only: breadth_first_walk_nodes)
qed

section \<open>The walk visits every position once\<close>

lemma node_at_append:
  "node_at (p @ q) t = (case node_at p t of None \<Rightarrow> None | Some n \<Rightarrow> node_at q n)"
  by (induction p arbitrary: t) simp_all

lemma kids_valid:
  assumes "node_at p t = Some n" and "(q, c) \<in> set (kids p n)"
  shows "node_at q t = Some c"
proof -
  from assms(2) obtain i where i: "i < length (children n)" "q = p @ [i]" "c = children n ! i"
    by (auto simp: kids_def in_set_enumerate_eq)
  with assms(1) show ?thesis by (simp add: node_at_append)
qed

lemma walk_queue_valid:
  "\<forall>(p, n) \<in> set q. node_at p t = Some n \<Longrightarrow>
   \<forall>(p, n) \<in> set (walk_queue q). node_at p t = Some n"
proof (induction q rule: walk_queue.induct)
  case 1
  show ?case by (simp add: walk_queue.simps)
next
  case (2 p n queue)
  have "\<forall>(p', n') \<in> set (queue @ kids p n). node_at p' t = Some n'"
    using "2.prems" by (auto dest: kids_valid)
  from "2.IH" [OF this] "2.prems" show ?case
    by (simp add: walk_queue.simps)
qed

lemma breadth_first_walk_valid:
  "(p, n) \<in> set (breadth_first_walk t) \<Longrightarrow> node_at p t = Some n"
  using walk_queue_valid [of "[([], t)]" t] by (auto simp: breadth_first_walk_def)

lemma positions_kids:
  "map ((@) p) (positions n) = p # queue_positions (kids p n)"
proof -
  have "(@) (p @ [i]) = (\<lambda>r. p @ i # r)" for i
    by (rule ext) simp
  then show ?thesis
    by (cases n) (simp add: queue_positions_def kids_def split_def comp_def map_concat)
qed

lemma queue_positions_simps:
  "queue_positions [] = []"
  "queue_positions (r # q) = map ((@) (fst r)) (positions (snd r)) @ queue_positions q"
  "queue_positions (q @ q') = queue_positions q @ queue_positions q'"
  by (simp_all add: queue_positions_def)

lemma walk_queue_positions:
  "mset (map fst (walk_queue q)) = mset (queue_positions q)"
proof (induction q rule: walk_queue.induct)
  case 1
  show ?case by (simp add: walk_queue.simps queue_positions_simps)
next
  case (2 p n queue)
  have "mset (map fst (walk_queue ((p, n) # queue)))
          = {#p#} + mset (map fst (walk_queue (queue @ kids p n)))"
    by (simp add: walk_queue.simps)
  also have "\<dots> = {#p#} + mset (queue_positions (queue @ kids p n))"
    by (simp only: "2.IH")
  also have "\<dots> = mset (p # queue_positions (kids p n)) + mset (queue_positions queue)"
    by (simp add: queue_positions_simps)
  also have "\<dots> = mset (queue_positions ((p, n) # queue))"
    by (simp only: positions_kids [symmetric] queue_positions_simps fst_conv snd_conv mset_append)
  finally show ?case .
qed

lemma breadth_first_walk_positions:
  "mset (map fst (breadth_first_walk t)) = mset (positions t)"
proof -
  have "(@) [] = (\<lambda>r :: nat list. r)"
    by (rule ext) simp
  then have "queue_positions [([], t)] = positions t"
    by (simp add: queue_positions_def)
  then show ?thesis
    by (simp only: breadth_first_walk_def walk_queue_positions)
qed

lemma distinct_concat_tagged:
  "distinct (map fst xs) \<Longrightarrow> (\<And>r. r \<in> set xs \<Longrightarrow> distinct (f (snd r))) \<Longrightarrow>
   distinct (concat (map (\<lambda>r. map ((#) (fst r)) (f (snd r))) xs))"
proof (induction xs)
  case Nil
  show ?case by simp
next
  case (Cons a xs)
  have rest: "distinct (concat (map (\<lambda>r. map ((#) (fst r)) (f (snd r))) xs))"
    using Cons by simp
  have head: "distinct (map ((#) (fst a)) (f (snd a)))"
    using Cons.prems(2) [of a] by (simp add: distinct_map)
  have "fst a \<notin> fst ` set xs"
    using Cons.prems(1) by simp
  then have apart: "set (map ((#) (fst a)) (f (snd a)))
           \<inter> set (concat (map (\<lambda>r. map ((#) (fst r)) (f (snd r))) xs)) = {}"
    by auto
  from rest head apart show ?case by simp
qed

lemma distinct_positions: "distinct (positions t)"
proof (induction t rule: positions.induct)
  case (1 its cs)
  have "distinct (concat (map (\<lambda>r. map ((#) (fst r)) (positions (snd r))) (enumerate 0 cs)))"
  proof (rule distinct_concat_tagged)
    show "distinct (map fst (enumerate 0 cs))" by simp
  next
    fix r assume "r \<in> set (enumerate 0 cs)"
    with 1 show "distinct (positions (snd r))" by blast
  qed
  then show ?case by auto
qed

lemma distinct_breadth_first_walk: "distinct (map fst (breadth_first_walk t))"
  using breadth_first_walk_positions [of t] distinct_positions [of t]
  by (metis mset_eq_imp_distinct_iff)

lemma positions_valid: "p \<in> set (positions t) \<longleftrightarrow> node_at p t \<noteq> None"
proof (induction p arbitrary: t)
  case Nil
  show ?case by (cases t) simp
next
  case (Cons i p)
  obtain its cs where t: "t = Node its cs" by (cases t)
  have "i # p \<in> set (positions t) \<longleftrightarrow> (i < length cs \<and> p \<in> set (positions (cs ! i)))"
  proof
    assume "i # p \<in> set (positions t)"
    then obtain r where "r \<in> set (enumerate 0 cs)" "i = fst r" "p \<in> set (positions (snd r))"
      by (auto simp: t)
    then show "i < length cs \<and> p \<in> set (positions (cs ! i))"
      by (auto simp: in_set_enumerate_eq)
  next
    assume a: "i < length cs \<and> p \<in> set (positions (cs ! i))"
    then have "(i, cs ! i) \<in> set (enumerate 0 cs)"
      by (simp add: in_set_enumerate_eq)
    with a show "i # p \<in> set (positions t)"
      by (force simp: t)
  qed
  with Cons t show ?case by simp
qed

lemma breadth_first_walk_complete:
  "node_at p t = Some n \<Longrightarrow> (p, n) \<in> set (breadth_first_walk t)"
proof -
  assume a: "node_at p t = Some n"
  then have "p \<in> set (positions t)" by (simp add: positions_valid)
  then have "p \<in> set (map fst (breadth_first_walk t))"
    using breadth_first_walk_positions [of t] by (metis set_mset_mset)
  then obtain m where m: "(p, m) \<in> set (breadth_first_walk t)" by auto
  with breadth_first_walk_valid [OF m] a show ?thesis by simp
qed

section \<open>The loop over the links\<close>

lemma node_at_update_at:
  "node_at p (update_at p f t) = map_option f (node_at p t)"
  by (induction p arbitrary: t) simp_all

lemma items_at_update_at_other:
  assumes "\<And>n. children (f n) = children n" and "q \<noteq> p"
  shows "items_at q (update_at p f t) = items_at q t"
  using assms(2)
proof (induction p arbitrary: q t)
  case Nil
  then obtain j q' where "q = j # q'" by (cases q) auto
  then show ?case by (simp add: items_at_def assms(1))
next
  case (Cons i p)
  show ?case
  proof (cases q)
    case Nil
    then show ?thesis by (simp add: items_at_def)
  next
    case (Cons j q')
    show ?thesis
    proof (cases "j = i")
      case True
      with Cons Cons.prems have "q' \<noteq> p" by simp
      from Cons.IH [OF this] Cons True show ?thesis
        by (simp add: items_at_def)
    next
      case False
      with Cons show ?thesis by (simp add: items_at_def)
    qed
  qed
qed

lemma items_at_update_at:
  assumes "\<And>n. children (f n) = children n"
  shows "items_at q (update_at p f t)
           = (if q = p then map_option (\<lambda>n. items (f n)) (node_at p t) else items_at q t)"
  using items_at_update_at_other [OF assms] node_at_update_at [of p f t]
  by (auto simp: items_at_def option.map_comp comp_def)

lemma node_at_None_items_at: "node_at p t = None \<longleftrightarrow> items_at p t = None"
  by (simp add: items_at_def)

lemma transform_loop_items:
  assumes "distinct ps" and "\<forall>p \<in> set ps. items_at p t \<noteq> None"
    and "transform_loop x D ps t = Inr t'"
  shows "items_at q t'
           = (if q \<in> set ps then map_option (rewritten_items x D) (items_at q t)
              else items_at q t)"
  using assms
proof (induction ps arbitrary: t)
  case Nil
  then show ?case by simp
next
  case (Cons p ps)
  from Cons.prems(2) obtain link where link: "node_at p t = Some link"
    by (auto simp: items_at_def)
  with Cons.prems(3) obtain url P where
    url: "map_of (items link) ''url'' = Some url" and P: "urlparse x url = Inr P"
    by (auto split: option.splits sum.splits)
  let ?go = "scheme P = [] \<and> path P \<noteq> [] \<and> path P \<in> D"
  let ?f = "\<lambda>l. Node (AList.update ''url''
                         (urlunparse (P\<lparr>path := path P @ ''.myst.json''\<rparr>)) (items l))
                   (children l)"
  let ?t1 = "if ?go then update_at p ?f t else t"
  have step: "transform_loop x D ps ?t1 = Inr t'"
    using Cons.prems(3) link url P by (auto simp: Let_def split: if_splits)
  have frame: "items_at r ?t1
                 = (if r = p then Some (rewritten_items x D (items link)) else items_at r t)" for r
    using link url P
    by (simp add: items_at_update_at rewritten_items_def) (simp add: items_at_def)
  have valid: "\<forall>p' \<in> set ps. items_at p' ?t1 \<noteq> None"
    using Cons.prems(1,2) by (simp only: frame) auto
  from Cons.prems(1) have d: "distinct ps" "p \<notin> set ps" by simp_all
  have "items_at q t'
          = (if q \<in> set ps then map_option (rewritten_items x D) (items_at q ?t1)
             else items_at q ?t1)"
    by (rule Cons.IH [OF d(1) valid step])
  with d(2) link show ?case
    by (simp only: frame) (auto simp: items_at_def)
qed

lemma transform_loop_link_ok:
  assumes "distinct ps" and "\<forall>p \<in> set ps. items_at p t \<noteq> None"
  shows "(\<exists>t'. transform_loop x D ps t = Inr t')
           \<longleftrightarrow> (\<forall>p \<in> set ps. \<exists>its. items_at p t = Some its \<and> link_ok x its)"
  using assms
proof (induction ps arbitrary: t)
  case Nil
  then show ?case by simp
next
  case (Cons p ps)
  from Cons.prems(2) obtain link where link: "node_at p t = Some link"
    by (auto simp: items_at_def)
  show ?case
  proof (cases "link_ok x (items link)")
    case False
    then have "\<not> (\<exists>t'. transform_loop x D (p # ps) t = Inr t')"
      using link by (auto simp: link_ok_def split: option.splits sum.splits)
    moreover have "\<not> (\<forall>p' \<in> set (p # ps). \<exists>its. items_at p' t = Some its \<and> link_ok x its)"
      using False link by (simp add: items_at_def)
    ultimately show ?thesis by blast
  next
    case True
    then obtain url P where
      url: "map_of (items link) ''url'' = Some url" and P: "urlparse x url = Inr P"
      by (auto simp: link_ok_def split: option.splits sum.splits)
    let ?go = "scheme P = [] \<and> path P \<noteq> [] \<and> path P \<in> D"
    let ?f = "\<lambda>l. Node (AList.update ''url''
                           (urlunparse (P\<lparr>path := path P @ ''.myst.json''\<rparr>)) (items l))
                     (children l)"
    let ?t1 = "if ?go then update_at p ?f t else t"
    have step: "transform_loop x D (p # ps) t = transform_loop x D ps ?t1"
      using link url P by (auto simp: Let_def)
    have frame: "items_at r ?t1
                   = (if r = p then Some (rewritten_items x D (items link)) else items_at r t)"
      for r
      using link url P
      by (simp add: items_at_update_at rewritten_items_def) (simp add: items_at_def)
    from Cons.prems(1) have d: "distinct ps" "p \<notin> set ps" by simp_all
    have valid: "\<forall>p' \<in> set ps. items_at p' ?t1 \<noteq> None"
      using Cons.prems(1,2) by (simp only: frame) auto
    have same: "\<forall>p' \<in> set ps. items_at p' ?t1 = items_at p' t"
      using d(2) by (simp only: frame) auto
    have "(\<exists>t'. transform_loop x D ps ?t1 = Inr t')
            \<longleftrightarrow> (\<forall>p' \<in> set ps. \<exists>its. items_at p' ?t1 = Some its \<and> link_ok x its)"
      by (rule Cons.IH [OF d(1) valid])
    with same True link show ?thesis
      by (simp only: step) (simp add: items_at_def)
  qed
qed

section \<open>The rewrite as a map over the tree\<close>

lemma items_at_map_tree: "items_at p (map_tree g t) = map_option g (items_at p t)"
proof (induction p arbitrary: t)
  case Nil
  show ?case by (cases t) (simp add: items_at_def)
next
  case (Cons i p)
  obtain its cs where t: "t = Node its cs" by (cases t)
  from Cons [of "cs ! i"] show ?case by (simp add: t items_at_def)
qed

lemma tree_ext:
  "(\<And>p. items_at p t = items_at p t') \<Longrightarrow> t = t'"
proof (induction t arbitrary: t')
  case (Node a cs)
  obtain b ds where t': "t' = Node b ds" by (cases t')
  from Node.prems [of "[]"] have ab: "a = b" by (simp add: t' items_at_def)
  have len: "length cs = length ds"
  proof (rule ccontr)
    assume ne: "length cs \<noteq> length ds"
    let ?i = "min (length cs) (length ds)"
    from ne have "(?i < length cs) \<noteq> (?i < length ds)" by auto
    with Node.prems [of "[?i]"] show False
      by (auto simp: t' items_at_def split: if_splits)
  qed
  have "cs ! i = ds ! i" if i: "i < length cs" for i
  proof (rule Node.IH)
    show "cs ! i \<in> set cs" using i by simp
  next
    fix p
    from Node.prems [of "i # p"] i len show "items_at p (cs ! i) = items_at p (ds ! i)"
      by (simp add: t' items_at_def)
  qed
  with len have "cs = ds" by (simp add: list_eq_iff_nth_eq)
  with ab t' show ?case by simp
qed

lemma enumerate_map:
  "enumerate k (map f xs) = map (\<lambda>r. (fst r, f (snd r))) (enumerate k xs)"
  by (induction xs arbitrary: k) simp_all

lemma kids_map_tree:
  "kids p (map_tree g n) = map (\<lambda>r. (fst r, map_tree g (snd r))) (kids p n)"
  by (cases n) (simp add: kids_def enumerate_map split_def comp_def)

lemma walk_queue_map_tree:
  "walk_queue (map (\<lambda>r. (fst r, map_tree g (snd r))) q)
     = map (\<lambda>r. (fst r, map_tree g (snd r))) (walk_queue q)"
proof (induction q rule: walk_queue.induct)
  case 1
  show ?case by (simp add: walk_queue.simps)
next
  case (2 p n queue)
  then show ?case by (simp add: walk_queue.simps kids_map_tree)
qed

lemma breadth_first_walk_map_tree:
  "breadth_first_walk (map_tree g t)
     = map (\<lambda>r. (fst r, map_tree g (snd r))) (breadth_first_walk t)"
  using walk_queue_map_tree [of g "[([], t)]"] by (simp add: breadth_first_walk_def)

lemma items_map_tree: "items (map_tree g n) = g (items n)"
  by (cases n) simp

lemma find_by_type_map_tree:
  assumes "\<And>its. map_of (g its) ''type'' = map_of its ''type''"
  shows "map fst (find_by_type ty (map_tree g t)) = map fst (find_by_type ty t)"
  by (simp add: find_by_type_def breadth_first_walk_map_tree filter_map comp_def
        items_map_tree assms)

lemma link_positions:
  "q \<in> set (map fst (find_by_type ty t))
     \<longleftrightarrow> (\<exists>its. items_at q t = Some its \<and> map_of its ''type'' = Some ty)"
proof
  assume "q \<in> set (map fst (find_by_type ty t))"
  then obtain n where n: "(q, n) \<in> set (breadth_first_walk t)" "map_of (items n) ''type'' = Some ty"
    by (auto simp: find_by_type_def)
  from breadth_first_walk_valid [OF n(1)] n(2)
  show "\<exists>its. items_at q t = Some its \<and> map_of its ''type'' = Some ty"
    by (simp add: items_at_def)
next
  assume "\<exists>its. items_at q t = Some its \<and> map_of its ''type'' = Some ty"
  then obtain n where n: "node_at q t = Some n" "map_of (items n) ''type'' = Some ty"
    by (auto simp: items_at_def)
  from breadth_first_walk_complete [OF n(1)] n(2)
  show "q \<in> set (map fst (find_by_type ty t))"
    by (force simp: find_by_type_def)
qed

lemma distinct_find_by_type: "distinct (map fst (find_by_type ty t))"
  using distinct_breadth_first_walk [of t]
  by (simp add: find_by_type_def distinct_map_filter)

lemma transform_internal_links_map_tree:
  assumes "transform_internal_links x b t = Inr t'"
  shows "t' = map_tree (link_rewrite x (set (found_docs (env b)))) t"
proof (rule tree_ext [symmetric])
  fix q
  let ?D = "set (found_docs (env b))"
  let ?ps = "map fst (find_by_type ''link'' t)"
  have loop: "transform_loop x ?D ?ps t = Inr t'"
    using assms by (simp add: transform_internal_links_def Let_def)
  have valid: "\<forall>p \<in> set ?ps. items_at p t \<noteq> None"
    using link_positions [of _ "''link''" t] by auto
  have "items_at q t'
          = (if q \<in> set ?ps then map_option (rewritten_items x ?D) (items_at q t)
             else items_at q t)"
    by (rule transform_loop_items [OF distinct_find_by_type valid loop])
  also have "\<dots> = map_option (link_rewrite x ?D) (items_at q t)"
  proof (cases "items_at q t")
    case None
    then show ?thesis by simp
  next
    case (Some its)
    with link_positions [of q "''link''" t] show ?thesis
      by (simp add: link_rewrite_def)
  qed
  finally show "items_at q (map_tree (link_rewrite x ?D) t) = items_at q t'"
    by (simp add: items_at_map_tree)
qed

lemma transform_internal_links_ok:
  "(\<exists>t'. transform_internal_links x b t = Inr t')
     \<longleftrightarrow> (\<forall>q its. items_at q t = Some its \<and> map_of its ''type'' = Some ''link''
                    \<longrightarrow> link_ok x its)"
proof -
  let ?D = "set (found_docs (env b))"
  let ?ps = "map fst (find_by_type ''link'' t)"
  have valid: "\<forall>p \<in> set ?ps. items_at p t \<noteq> None"
    using link_positions [of _ "''link''" t] by auto
  have "(\<exists>t'. transform_loop x ?D ?ps t = Inr t')
           \<longleftrightarrow> (\<forall>p \<in> set ?ps. \<exists>its. items_at p t = Some its \<and> link_ok x its)"
    by (rule transform_loop_link_ok [OF distinct_find_by_type valid])
  also have "\<dots> \<longleftrightarrow> (\<forall>q its. items_at q t = Some its \<and> map_of its ''type'' = Some ''link''
                    \<longrightarrow> link_ok x its)"
  proof -
    have eq: "set ?ps = {q. \<exists>its. items_at q t = Some its \<and> map_of its ''type'' = Some ''link''}"
      using link_positions [of _ "''link''" t] by blast
    show ?thesis by (simp only: eq) auto
  qed
  finally show ?thesis
    by (simp add: transform_internal_links_def Let_def)
qed

section \<open>Written files\<close>

lemma write_json_files:
  "write_json fs p v = Inr fs' \<Longrightarrow> files fs' = (files fs)(p \<mapsto> v) \<and> dirs fs' = dirs fs"
  by (auto simp: write_json_def split: if_splits)

lemma mkdir_exist_ok_files:
  "mkdir_exist_ok fs p = Inr fs' \<Longrightarrow> files fs' = files fs"
  by (auto simp: mkdir_exist_ok_def split: if_splits)

lemma xref_write_doc_written:
  assumes "xref_write_doc x b sources fs doc_name mdast0 = Inr fs'"
  shows "\<exists>mdast contents.
           transform_internal_links x b mdast0 = Inr mdast \<and>
           sources (get_source_path b doc_name) = Some contents \<and>
           files fs' = (files fs)(xref_get_target_path x b doc_name
                                    \<mapsto> xref_artifact x doc_name contents mdast)"
proof -
  from assms obtain mdast fs1 contents where
    t: "transform_internal_links x b mdast0 = Inr mdast" and
    m: "mkdir_exist_ok fs (parent (xref_get_target_path x b doc_name)) = Inr fs1" and
    c: "sources (get_source_path b doc_name) = Some contents" and
    w: "write_json fs1 (xref_get_target_path x b doc_name)
          (xref_artifact x doc_name contents mdast) = Inr fs'"
    by (auto simp: xref_write_doc_def Let_def split: sum.splits option.splits)
  from write_json_files [OF w] mkdir_exist_ok_files [OF m] t c show ?thesis
    by simp
qed

lemma myst_write_doc_written:
  assumes "myst_write_doc x b fs doc_name mdast0 = Inr fs'"
  shows "\<exists>mdast.
           transform_internal_links x b mdast0 = Inr mdast \<and>
           files fs' = (files fs)(myst_get_output_path x b doc_name
                                    \<mapsto> JDict [(''kind'', JStr ''Article''),
                                                (''mdast'', JAst mdast)])"
proof -
  from assms obtain mdast fs1 where
    t: "transform_internal_links x b mdast0 = Inr mdast" and
    m: "mkdir_exist_ok fs (parent (myst_get_output_path x b doc_name)) = Inr fs1" and
    w: "write_json fs1 (myst_get_output_path x b doc_name)
          (JDict [(''kind'', JStr ''Article''), (''mdast'', JAst mdast)]) = Inr fs'"
    by (auto simp: myst_write_doc_def Let_def split: sum.splits)
  from write_json_files [OF w] mkdir_exist_ok_files [OF m] t show ?thesis
    by simp
qed

section \<open>The manifest: results\<close>

lemma target_references_loop_refs:
  "target_references_loop path_str slug ns = Inr refs \<Longrightarrow>
   list_all2 (is_node_reference path_str slug) (filter has_identifier ns) refs"
proof (induction ns arbitrary: refs)
  case Nil
  then show ?case by simp
next
  case (Cons n ns)
  show ?case
  proof (cases "map_of (items n) ''identifier''")
    case None
    with Cons show ?thesis by (simp add: has_identifier_def)
  next
    case (Some ident)
    with Cons.prems obtain k rest where
      k: "xref_kind_for_node n = Inr k" and
      rest: "target_references_loop path_str slug ns = Inr rest" and
      refs: "refs = JDict [(''identifier'', JStr ident), (''kind'', JStr k),
                           (''data'', JStr path_str), (''url'', JStr (''/'' @ slug))] # rest"
      by (auto split: sum.splits)
    from Cons.IH [OF rest] Some k refs show ?thesis
      by (simp add: has_identifier_def is_node_reference_def)
  qed
qed

lemma get_written_target_references_refs:
  "get_written_target_references x b fs doc = Inr rs \<Longrightarrow> doc_references x b fs doc rs"
  by (auto simp: get_written_target_references_def doc_references_def Let_def
        split: sum.splits dest: target_references_loop_refs)

lemma all_target_references_refs:
  "all_target_references x b fs ds = Inr refs \<Longrightarrow>
   \<exists>rss. list_all2 (doc_references x b fs) ds rss \<and> refs = concat rss"
proof (induction ds arbitrary: refs)
  case Nil
  then show ?case by simp
next
  case (Cons d ds)
  from Cons.prems obtain rs later where
    rs: "get_written_target_references x b fs d = Inr rs" and
    later: "all_target_references x b fs ds = Inr later" and
    refs: "refs = rs @ later"
    by (auto split: sum.splits)
  from Cons.IH [OF later] obtain rss where
    rss: "list_all2 (doc_references x b fs) ds rss" "later = concat rss"
    by blast
  have "list_all2 (doc_references x b fs) (d # ds) (rs # rss)"
    using rs rss(1) by (simp add: get_written_target_references_refs)
  moreover have "refs = concat (rs # rss)"
    using refs rss(2) by simp
  ultimately show ?case by blast
qed

lemma finish_written:
  assumes "finish x b fs = Inr fs'"
  shows "\<exists>refs. all_target_references x b fs (found_docs (env b)) = Inr refs
              \<and> files fs' (manifest_path b)
                  = Some (JDict [(''version'', JStr AST_VERSION),
                                 (''myst'', JStr MYST_VERSION),
                                 (''references'',
                                    JList (map (page_reference x b) (found_docs (env b))
                                           @ refs))])"
proof -
  from assms obtain refs where
    refs: "all_target_references x b fs (found_docs (env b)) = Inr refs" and
    w: "write_json fs (manifest_path b)
          (JDict [(''version'', JStr AST_VERSION), (''myst'', JStr MYST_VERSION),
                  (''references'',
                     JList (map (page_reference x b) (found_docs (env b)) @ refs))])
        = Inr fs'"
    by (auto simp: finish_def manifest_path_def Let_def split: sum.splits)
  from write_json_files [OF w] refs show ?thesis by simp
qed

text \<open>The finishing pass on the sample.\<close>

lemma sample_refs_intro:
  "get_written_target_references sample_ext sample_builder sample_built ''intro'' = Inr
     [JDict [(''identifier'', JStr ''intro''), (''kind'', JStr ''heading''),
                     (''data'', JStr ''out/content/intro.json''), (''url'', JStr ''/intro'')],
              JDict [(''identifier'', JStr ''fig-1''), (''kind'', JStr ''figure''),
                     (''data'', JStr ''out/content/intro.json''), (''url'', JStr ''/intro'')]]"
  by (simp add: get_written_target_references_def
       read_json_def get_mdast_def xref_artifact_def breadth_first_walk_def walk_queue.simps kids_def
       xref_kind_for_node_def sample_defs path_defs Let_def)

lemma sample_refs_guide:
  "get_written_target_references sample_ext sample_builder sample_built ''guide'' = Inr
     [JDict [(''identifier'', JStr ''eq-1''), (''kind'', JStr ''math:inline''),
                     (''data'', JStr ''out/content/guide.json''), (''url'', JStr ''/guide'')]]"
  by (simp add: get_written_target_references_def
       read_json_def get_mdast_def xref_artifact_def breadth_first_walk_def walk_queue.simps kids_def
       xref_kind_for_node_def sample_defs path_defs Let_def)

lemma sample_finish: "finish sample_ext sample_builder sample_built = Inr sample_finished"
proof -
  have docs: "found_docs (env sample_builder) = [''intro'', ''guide'']"
    by (simp add: sample_builder_def)
  show ?thesis
    by (simp add: finish_def docs sample_refs_intro sample_refs_guide page_reference_def
          write_json_def sample_finished_def sample_manifest_def AST_VERSION_def
          MYST_VERSION_def path_defs)
       (simp add: sample_built_def sample_builder_def sample_ext_def)
qed

text \<open>
  Claim C3. When \<open>finish\<close> returns, the \<open>references\<close> list of the manifest it wrote is
  the page-level entries of all documents of \<open>found_docs\<close>, in that order, followed by
  the node-level entries: for each document in the same order, one entry for each node
  with an identifier of the artifact stored for the document, in the order of the walk.
\<close>

theorem finish_references:
  assumes "finish x b fs = Inr fs'"
  shows "\<exists>rss m. list_all2 (doc_references x b fs) (found_docs (env b)) rss
             \<and> files fs' (manifest_path b) = Some m
             \<and> dict_get m ''references''
                 = Some (JList (map (page_reference x b) (found_docs (env b)) @ concat rss))"
proof -
  from finish_written [OF assms] obtain refs where
    refs: "all_target_references x b fs (found_docs (env b)) = Inr refs" and
    f: "files fs' (manifest_path b)
          = Some (JDict [(''version'', JStr AST_VERSION), (''myst'', JStr MYST_VERSION),
                         (''references'',
                            JList (map (page_reference x b) (found_docs (env b)) @ refs))])"
    by blast
  from all_target_references_refs [OF refs] obtain rss where
    rss: "list_all2 (doc_references x b fs) (found_docs (env b)) rss" "refs = concat rss"
    by blast
  have "dict_get (JDict [(''version'', JStr AST_VERSION), (''myst'', JStr MYST_VERSION),
                         (''references'',
                            JList (map (page_reference x b) (found_docs (env b)) @ refs))])
          ''references''
        = Some (JList (map (page_reference x b) (found_docs (env b)) @ refs))"
    by (simp add: dict_get_def)
  with f rss show ?thesis by blast
qed

theorem finish_references_witness:
  "finish sample_ext sample_builder sample_built = Inr sample_finished
   \<and> (\<exists>rss m. list_all2 (doc_references sample_ext sample_builder sample_built)
                 (found_docs (env sample_builder)) rss
           \<and> files sample_finished (manifest_path sample_builder) = Some m
           \<and> dict_get m ''references''
               = Some (JList (map (page_reference sample_ext sample_builder)
                                (found_docs (env sample_builder)) @ concat rss)))"
  using finish_references [OF sample_finish] sample_finish by blast

text \<open>
  Claim C5, as stated, fails: the manifest has no key \<open>toolVersion\<close>. On the sample the
  keys are \<open>version\<close>, \<open>myst\<close> and \<open>references\<close>.
\<close>

theorem manifest_keys_counterexample:
  "written_manifest sample_ext sample_builder sample_built = Some sample_manifest
   \<and> dict_keys sample_manifest = [''version'', ''myst'', ''references'']
   \<and> \<not> manifest_has_key sample_ext sample_builder sample_built ''toolVersion''"
proof -
  have mp: "manifest_path sample_builder = ''out/myst.xref.json''"
    by (simp add: manifest_path_def path_join_def sample_builder_def)
  have w: "written_manifest sample_ext sample_builder sample_built = Some sample_manifest"
    by (simp add: written_manifest_def sample_finish mp sample_finished_def)
  have k: "dict_keys sample_manifest = [''version'', ''myst'', ''references'']"
    by (simp add: dict_keys_def sample_manifest_def)
  from w k show ?thesis by (simp add: manifest_has_key_def)
qed

text \<open>
  Claim C5, amended. The manifest written by \<open>finish\<close> is a JSON object with exactly
  the keys \<open>version\<close> (the AST version string), \<open>myst\<close> (the version string of the
  downstream tool) and \<open>references\<close> (a list), in this order.
\<close>

theorem finish_manifest_keys:
  assumes "finish x b fs = Inr fs'"
  shows "\<exists>m refs. files fs' (manifest_path b) = Some m
                \<and> dict_keys m = [''version'', ''myst'', ''references'']
                \<and> dict_get m ''version'' = Some (JStr AST_VERSION)
                \<and> dict_get m ''myst'' = Some (JStr MYST_VERSION)
                \<and> dict_get m ''references'' = Some (JList refs)"
proof -
  from finish_written [OF assms] obtain refs where
    f: "files fs' (manifest_path b)
          = Some (JDict [(''version'', JStr AST_VERSION), (''myst'', JStr MYST_VERSION),
                         (''references'',
                            JList (map (page_reference x b) (found_docs (env b)) @ refs))])"
    by blast
  then show ?thesis by (simp add: dict_keys_def dict_get_def)
qed

theorem finish_manifest_keys_witness:
  "finish sample_ext sample_builder sample_built = Inr sample_finished
   \<and> (\<exists>m refs. files sample_finished (manifest_path sample_builder) = Some m
              \<and> dict_keys m = [''version'', ''myst'', ''references'']
              \<and> dict_get m ''version'' = Some (JStr AST_VERSION)
              \<and> dict_get m ''myst'' = Some (JStr MYST_VERSION)
              \<and> dict_get m ''references'' = Some (JList refs))"
  using finish_manifest_keys [OF sample_finish] sample_finish by blast

text \<open>
  Claim C10. Every node-level entry produced for a document has the four keys
  \<open>identifier\<close>, \<open>kind\<close>, \<open>data\<close>, \<open>url\<close>; its \<open>url\<close> is a slash followed by the
  slug of the document, with nothing appended, and its \<open>data\<close> is the path of the
  document's artifact.
\<close>

theorem target_reference_url_data:
  assumes "get_written_target_references x b fs doc = Inr refs" and "r \<in> set refs"
  shows "dict_keys r = [''identifier'', ''kind'', ''data'', ''url'']
       \<and> dict_get r ''url'' = Some (JStr (''/'' @ xref_slugify x doc))
       \<and> dict_get r ''data'' = Some (JStr (xref_get_target_path x b doc))"
proof -
  from get_written_target_references_refs [OF assms(1)] obtain ns where
    "list_all2 (is_node_reference (xref_get_target_path x b doc) (xref_slugify x doc)) ns refs"
    by (auto simp: doc_references_def split: sum.splits)
  with assms(2) obtain n where
    "is_node_reference (xref_get_target_path x b doc) (xref_slugify x doc) n r"
    by (auto simp: list_all2_conv_all_nth in_set_conv_nth)
  then show ?thesis
    by (auto simp: is_node_reference_def dict_keys_def dict_get_def
          split: option.splits sum.splits)
qed

theorem target_reference_url_data_witness:
  "get_written_target_references sample_ext sample_builder sample_built ''intro''
     = Inr [JDict [(''identifier'', JStr ''intro''), (''kind'', JStr ''heading''),
                   (''data'', JStr ''out/content/intro.json''), (''url'', JStr ''/intro'')],
            JDict [(''identifier'', JStr ''fig-1''), (''kind'', JStr ''figure''),
                   (''data'', JStr ''out/content/intro.json''), (''url'', JStr ''/intro'')]]
   \<and> dict_get (JDict [(''identifier'', JStr ''fig-1''), (''kind'', JStr ''figure''),
                   (''data'', JStr ''out/content/intro.json''), (''url'', JStr ''/intro'')])
        ''url'' = Some (JStr (''/'' @ xref_slugify sample_ext ''intro''))"
proof -
  let ?r = "JDict [(''identifier'', JStr ''fig-1''), (''kind'', JStr ''figure''),
                   (''data'', JStr ''out/content/intro.json''), (''url'', JStr ''/intro'')]"
  have "?r \<in> set [JDict [(''identifier'', JStr ''intro''), (''kind'', JStr ''heading''),
                   (''data'', JStr ''out/content/intro.json''), (''url'', JStr ''/intro'')], ?r]"
    by simp
  from target_reference_url_data [OF sample_refs_intro this] sample_refs_intro
  show ?thesis by blast
qed

section \<open>Emission: results\<close>

text \<open>Emission of the two sample documents.\<close>

lemma sample_transform_intro:
  "transform_internal_links sample_ext sample_builder intro_mdast = Inr intro_written"
  by (simp add: transform_internal_links_def find_by_type_def breadth_first_walk_def
        walk_queue.simps kids_def sample_defs url_defs Let_def)

lemma sample_transform_guide:
  "transform_internal_links sample_ext sample_builder guide_mdast = Inr guide_mdast"
  by (simp add: transform_internal_links_def find_by_type_def breadth_first_walk_def
        walk_queue.simps kids_def sample_defs Let_def)

lemma sample_target_paths:
  "xref_get_target_path sample_ext sample_builder ''intro'' = ''out/content/intro.json''"
  "xref_get_target_path sample_ext sample_builder ''guide'' = ''out/content/guide.json''"
  "parent ''out/content/intro.json'' = ''out/content''"
  "parent ''out/content/guide.json'' = ''out/content''"
  "parent ''out/content'' = ''out''"
  by (simp_all add: path_defs sample_builder_def sample_ext_def)

lemma sample_source_bytes:
  "sample_sources (get_source_path sample_builder ''intro'') = Some ''Intro''"
  "sample_sources (get_source_path sample_builder ''guide'') = Some ''text''"
  by (simp_all add: get_source_path_def sample_builder_def sample_sources_def)

lemma sample_write_intro:
  "xref_write_doc sample_ext sample_builder sample_sources sample_fs ''intro'' intro_mdast
     = Inr sample_fs1"
proof -
  have mk: "mkdir_exist_ok sample_fs ''out/content''
              = Inr \<lparr> dirs = {''out'', ''out/content''}, files = Map.empty \<rparr>"
    by (auto simp: mkdir_exist_ok_def sample_target_paths sample_fs_def)
  show ?thesis
    by (simp add: xref_write_doc_def sample_transform_intro sample_target_paths
          sample_source_bytes mk write_json_def sample_fs1_def)
qed

lemma sample_write_guide:
  "xref_write_doc sample_ext sample_builder sample_sources sample_fs1 ''guide'' guide_mdast
     = Inr sample_built"
proof -
  have mk: "mkdir_exist_ok sample_fs1 ''out/content'' = Inr sample_fs1"
    by (simp add: mkdir_exist_ok_def sample_fs1_def)
  show ?thesis
    by (simp add: xref_write_doc_def sample_transform_guide sample_target_paths
          sample_source_bytes mk write_json_def)
       (simp add: sample_fs1_def sample_built_def)
qed

text \<open>Emission of the two documents with equal basenames.\<close>

lemma collide_paths:
  "myst_get_output_path sample_ext collide_builder ''a/index'' = ''out/index.myst.json''"
  "myst_get_output_path sample_ext collide_builder ''b/index'' = ''out/index.myst.json''"
  "xref_get_target_path sample_ext collide_builder ''a/index'' = ''out/content/index.json''"
  "xref_get_target_path sample_ext collide_builder ''b/index'' = ''out/content/index.json''"
  "parent ''out/index.myst.json'' = ''out''"
  "parent ''out/content/index.json'' = ''out/content''"
  "collide_sources (get_source_path collide_builder ''a/index'') = Some ''A''"
  "collide_sources (get_source_path collide_builder ''b/index'') = Some ''B''"
  by (simp_all add: path_defs collide_builder_def collide_sources_def sample_ext_def)

lemma collide_transform:
  "transform_internal_links sample_ext collide_builder page_a = Inr page_a"
  "transform_internal_links sample_ext collide_builder page_b = Inr page_b"
  by (simp_all add: transform_internal_links_def find_by_type_def breadth_first_walk_def
        walk_queue.simps kids_def page_a_def page_b_def Let_def)

lemma collide_myst_writes:
  "myst_write_doc sample_ext collide_builder sample_fs ''a/index'' page_a = Inr collide_myst1"
  "myst_write_doc sample_ext collide_builder collide_myst1 ''b/index'' page_b = Inr collide_myst2"
  by (simp_all add: myst_write_doc_def collide_transform collide_paths mkdir_exist_ok_def
        write_json_def sample_fs_def collide_myst1_def collide_myst2_def)

lemma collide_xref_writes:
  "xref_write_doc sample_ext collide_builder collide_sources sample_fs ''a/index'' page_a
     = Inr collide_xref1"
  "xref_write_doc sample_ext collide_builder collide_sources collide_xref1 ''b/index'' page_b
     = Inr collide_xref2"
proof -
  have mk: "mkdir_exist_ok sample_fs ''out/content''
              = Inr \<lparr> dirs = {''out'', ''out/content''}, files = Map.empty \<rparr>"
    by (auto simp: mkdir_exist_ok_def sample_target_paths sample_fs_def)
  show "xref_write_doc sample_ext collide_builder collide_sources sample_fs ''a/index'' page_a
     = Inr collide_xref1"
    by (simp add: xref_write_doc_def collide_transform collide_paths mk write_json_def
          collide_xref1_def)
  have mk1: "mkdir_exist_ok collide_xref1 ''out/content'' = Inr collide_xref1"
    by (simp add: mkdir_exist_ok_def collide_xref1_def)
  show "xref_write_doc sample_ext collide_builder collide_sources collide_xref1 ''b/index'' page_b
     = Inr collide_xref2"
    by (simp add: xref_write_doc_def collide_transform collide_paths mk1 write_json_def)
       (simp add: collide_xref1_def collide_xref2_def)
qed

text \<open>
  Claim C9. Two document names with the same basename get the same slug and the same
  output path from either builder. Writing the first and then the second leaves, at the
  shared path, the artifact of the second: the artifact of the first, which was there
  after the first write, is overwritten.
\<close>

theorem equal_basenames_collide:
  assumes "basename a = basename c"
  shows "myst_slugify x a = myst_slugify x c
       \<and> xref_slugify x a = xref_slugify x c
       \<and> myst_get_output_path x b a = myst_get_output_path x b c
       \<and> xref_get_target_path x b a = xref_get_target_path x b c
       \<and> (myst_write_doc x b fs a ta = Inr fs1 \<and> myst_write_doc x b fs1 c tc = Inr fs2 \<longrightarrow>
            (\<exists>ma mc. transform_internal_links x b ta = Inr ma
                  \<and> transform_internal_links x b tc = Inr mc
                  \<and> files fs1 (myst_get_output_path x b a)
                      = Some (JDict [(''kind'', JStr ''Article''), (''mdast'', JAst ma)])
                  \<and> files fs2 (myst_get_output_path x b a)
                      = Some (JDict [(''kind'', JStr ''Article''), (''mdast'', JAst mc)])))
       \<and> (xref_write_doc x b sources gs a ta = Inr gs1
            \<and> xref_write_doc x b sources gs1 c tc = Inr gs2 \<longrightarrow>
            (\<exists>ma mc ca cc. transform_internal_links x b ta = Inr ma
                  \<and> transform_internal_links x b tc = Inr mc
                  \<and> sources (get_source_path b a) = Some ca
                  \<and> sources (get_source_path b c) = Some cc
                  \<and> files gs1 (xref_get_target_path x b a) = Some (xref_artifact x a ca ma)
                  \<and> files gs2 (xref_get_target_path x b a) = Some (xref_artifact x c cc mc)
                  \<and> dict_get (xref_artifact x a ca ma) ''location'' = Some (JStr (''/'' @ a))
                  \<and> dict_get (xref_artifact x c cc mc) ''location'' = Some (JStr (''/'' @ c))))"
proof -
  have slug: "myst_slugify x a = myst_slugify x c" "xref_slugify x a = xref_slugify x c"
    using assms by (simp_all add: myst_slugify_def xref_slugify_def)
  have out: "myst_get_output_path x b a = myst_get_output_path x b c"
    using slug by (simp add: myst_get_output_path_def)
  have tgt: "xref_get_target_path x b a = xref_get_target_path x b c"
    using slug by (simp add: xref_get_target_path_def)
  have myst: "\<exists>ma mc. transform_internal_links x b ta = Inr ma
                  \<and> transform_internal_links x b tc = Inr mc
                  \<and> files fs1 (myst_get_output_path x b a)
                      = Some (JDict [(''kind'', JStr ''Article''), (''mdast'', JAst ma)])
                  \<and> files fs2 (myst_get_output_path x b a)
                      = Some (JDict [(''kind'', JStr ''Article''), (''mdast'', JAst mc)])"
    if w1: "myst_write_doc x b fs a ta = Inr fs1" and w2: "myst_write_doc x b fs1 c tc = Inr fs2"
    using myst_write_doc_written [OF w1] myst_write_doc_written [OF w2] out by auto
  have loc: "dict_get (xref_artifact x d cd md) ''location'' = Some (JStr (''/'' @ d))"
    for d cd md
    by (simp add: xref_artifact_def dict_get_def Let_def)
  have xref: "\<exists>ma mc ca cc. transform_internal_links x b ta = Inr ma
                  \<and> transform_internal_links x b tc = Inr mc
                  \<and> sources (get_source_path b a) = Some ca
                  \<and> sources (get_source_path b c) = Some cc
                  \<and> files gs1 (xref_get_target_path x b a) = Some (xref_artifact x a ca ma)
                  \<and> files gs2 (xref_get_target_path x b a) = Some (xref_artifact x c cc mc)
                  \<and> dict_get (xref_artifact x a ca ma) ''location'' = Some (JStr (''/'' @ a))
                  \<and> dict_get (xref_artifact x c cc mc) ''location'' = Some (JStr (''/'' @ c))"
    if w1: "xref_write_doc x b sources gs a ta = Inr gs1"
      and w2: "xref_write_doc x b sources gs1 c tc = Inr gs2"
    using xref_write_doc_written [OF w1] xref_write_doc_written [OF w2] tgt loc by auto
  from slug out tgt myst xref show ?thesis by blast
qed

theorem equal_basenames_collide_witness:
  "basename ''a/index'' = basename ''b/index''
   \<and> myst_write_doc sample_ext collide_builder sample_fs ''a/index'' page_a = Inr collide_myst1
   \<and> myst_write_doc sample_ext collide_builder collide_myst1 ''b/index'' page_b
       = Inr collide_myst2
   \<and> xref_write_doc sample_ext collide_builder collide_sources sample_fs ''a/index'' page_a
       = Inr collide_xref1
   \<and> xref_write_doc sample_ext collide_builder collide_sources collide_xref1 ''b/index'' page_b
       = Inr collide_xref2
   \<and> xref_get_target_path sample_ext collide_builder ''a/index''
       = xref_get_target_path sample_ext collide_builder ''b/index''
   \<and> files collide_xref1 (xref_get_target_path sample_ext collide_builder ''a/index'')
       = Some (xref_artifact sample_ext ''a/index'' ''A'' page_a)
   \<and> files collide_xref2 (xref_get_target_path sample_ext collide_builder ''a/index'')
       = Some (xref_artifact sample_ext ''b/index'' ''B'' page_b)"
proof -
  have same: "basename ''a/index'' = basename ''b/index''"
    by (simp add: basename_def)
  have f1: "files collide_xref1 (xref_get_target_path sample_ext collide_builder ''a/index'')
       = Some (xref_artifact sample_ext ''a/index'' ''A'' page_a)"
    by (simp add: collide_paths collide_xref1_def)
  have f2: "files collide_xref2 (xref_get_target_path sample_ext collide_builder ''a/index'')
       = Some (xref_artifact sample_ext ''b/index'' ''B'' page_b)"
    by (simp add: collide_paths collide_xref2_def)
  from equal_basenames_collide [OF same, of sample_ext collide_builder]
    same collide_myst_writes collide_xref_writes f1 f2
  show ?thesis by blast
qed

section \<open>Link rewriting: results\<close>

lemma urlparse_reparse:
  assumes "urlparse x u = Inr P" and "scheme P = []" and "path P \<noteq> []"
  shows "urlparse x (urlunparse (P\<lparr>path := path P @ ''.myst.json''\<rparr>))
           = Inr (P\<lparr>path := path P @ ''.myst.json''\<rparr>)"
  by (rule urlparse_urlunparse [OF wf_relative_suffix [OF urlparse_wf [OF assms]]])

lemma map_of_update_other:
  "k \<noteq> k' \<Longrightarrow> map_of (AList.update k v its) k' = map_of its k'"
  by (simp add: update_conv')

lemma rewritten_items_type:
  "map_of (rewritten_items x D its) ''type'' = map_of its ''type''"
  by (simp add: rewritten_items_def map_of_update_other split: option.splits sum.splits)

lemma link_rewrite_type:
  "map_of (link_rewrite x D its) ''type'' = map_of its ''type''"
  by (simp add: link_rewrite_def rewritten_items_type)

lemma rewritten_items_cases:
  assumes "map_of its ''url'' = Some u" and "urlparse x u = Inr P"
  shows "rewritten_items x D its
           = (if scheme P = [] \<and> path P \<noteq> [] \<and> path P \<in> D
              then AList.update ''url'' (urlunparse (P\<lparr>path := path P @ ''.myst.json''\<rparr>)) its
              else its)"
  using assms by (simp add: rewritten_items_def)

lemma rewritten_items_ok:
  assumes "link_ok x its"
  shows "link_ok x (rewritten_items x D its)"
proof -
  from assms obtain u P where u: "map_of its ''url'' = Some u" and P: "urlparse x u = Inr P"
    by (auto simp: link_ok_def split: option.splits sum.splits)
  show ?thesis
  proof (cases "scheme P = [] \<and> path P \<noteq> [] \<and> path P \<in> D")
    case False
    with rewritten_items_cases [OF u P, of D] assms show ?thesis by simp
  next
    case True
    then have "urlparse x (urlunparse (P\<lparr>path := path P @ ''.myst.json''\<rparr>))
                 = Inr (P\<lparr>path := path P @ ''.myst.json''\<rparr>)"
      using urlparse_reparse [OF P] by simp
    with rewritten_items_cases [OF u P, of D] True show ?thesis
      by (simp add: link_ok_def update_conv')
  qed
qed

lemma transform_internal_links_again:
  assumes "transform_internal_links x b tree = Inr tree1"
  shows "\<exists>tree2. transform_internal_links x b tree1 = Inr tree2"
proof -
  let ?D = "set (found_docs (env b))"
  have t1: "tree1 = map_tree (link_rewrite x ?D) tree"
    by (rule transform_internal_links_map_tree [OF assms])
  have ok: "\<forall>q its. items_at q tree = Some its \<and> map_of its ''type'' = Some ''link''
              \<longrightarrow> link_ok x its"
    using transform_internal_links_ok [of x b tree] assms by blast
  have "\<forall>q its. items_at q tree1 = Some its \<and> map_of its ''type'' = Some ''link''
              \<longrightarrow> link_ok x its"
  proof (intro allI impI)
    fix q its
    assume a: "items_at q tree1 = Some its \<and> map_of its ''type'' = Some ''link''"
    then obtain its0 where its0: "items_at q tree = Some its0"
      and its: "its = link_rewrite x ?D its0"
      by (auto simp: t1 items_at_map_tree)
    with a have ty: "map_of its0 ''type'' = Some ''link''"
      by (simp add: link_rewrite_type)
    with ok its0 have "link_ok x its0" by blast
    with ty its show "link_ok x its"
      by (simp add: link_rewrite_def rewritten_items_ok)
  qed
  then show ?thesis
    using transform_internal_links_ok [of x b tree1] by blast
qed

lemma transform_internal_links_at:
  assumes "transform_internal_links x b tree = Inr tree'"
    and "node_at p tree = Some link"
  shows "items_at p tree' = Some (link_rewrite x (set (found_docs (env b))) (items link))"
proof -
  have "items_at p tree = Some (items link)"
    using assms(2) by (simp add: items_at_def)
  moreover have "items_at p tree'
        = map_option (link_rewrite x (set (found_docs (env b)))) (items_at p tree)"
    by (simp only: transform_internal_links_map_tree [OF assms(1)] items_at_map_tree)
  ultimately show ?thesis by simp
qed

text \<open>The links of the sample.\<close>

lemma sample_links:
  "node_at [1, 0] intro_mdast = Some guide_link"
  "node_at [1, 1] intro_mdast = Some external_link"
  "map_of (items guide_link) ''type'' = Some ''link''"
  "map_of (items guide_link) ''url'' = Some ''guide#setup''"
  "map_of (items external_link) ''type'' = Some ''link''"
  "map_of (items external_link) ''url'' = Some ''https://example.org/guide''"
  by (simp_all add: intro_mdast_def guide_link_def external_link_def)

lemma sample_parses:
  "urlparse sample_ext ''guide#setup'' = Inr guide_parsed"
  "urlparse sample_ext ''https://example.org/guide'' = Inr external_parsed"
  "urlunparse (guide_parsed\<lparr>path := ''guide.myst.json''\<rparr>) = ''guide.myst.json#setup''"
  by (simp_all add: url_defs sample_ext_def guide_parsed_def external_parsed_def Let_def)

text \<open>
  Claim C4. When the rewrite returns, a link node whose URL has a scheme, or an empty
  path, or a path that is no known document name keeps all its entries, the URL among
  them. Otherwise only the \<open>url\<close> entry is replaced, by the URL assembled from the
  parsed components with the suffix appended to the path; parsing the new URL gives
  back the scheme, network location, parameters, query and fragment of the old one and
  the path with the suffix.
\<close>

theorem transform_internal_links_frame:
  assumes "transform_internal_links x b tree = Inr tree'"
    and "node_at p tree = Some link"
    and "map_of (items link) ''type'' = Some ''link''"
    and "map_of (items link) ''url'' = Some url"
    and "urlparse x url = Inr parsed"
  shows "(scheme parsed \<noteq> [] \<or> path parsed = [] \<or> path parsed \<notin> set (found_docs (env b))
            \<longrightarrow> items_at p tree' = Some (items link))
       \<and> (scheme parsed = [] \<and> path parsed \<noteq> [] \<and> path parsed \<in> set (found_docs (env b))
            \<longrightarrow> (\<exists>new_url.
                   items_at p tree' = Some (AList.update ''url'' new_url (items link))
                 \<and> new_url = urlunparse (parsed\<lparr>path := path parsed @ ''.myst.json''\<rparr>)
                 \<and> urlparse x new_url
                     = Inr (parsed\<lparr>path := path parsed @ ''.myst.json''\<rparr>)))"
proof -
  let ?D = "set (found_docs (env b))"
  have at: "items_at p tree' = Some (rewritten_items x ?D (items link))"
    using transform_internal_links_at [OF assms(1,2)] assms(3)
    by (simp add: link_rewrite_def)
  show ?thesis
  proof (cases "scheme parsed = [] \<and> path parsed \<noteq> [] \<and> path parsed \<in> ?D")
    case False
    with at rewritten_items_cases [OF assms(4,5), of ?D] show ?thesis by auto
  next
    case True
    then have "urlparse x (urlunparse (parsed\<lparr>path := path parsed @ ''.myst.json''\<rparr>))
                 = Inr (parsed\<lparr>path := path parsed @ ''.myst.json''\<rparr>)"
      using urlparse_reparse [OF assms(5)] by simp
    with at rewritten_items_cases [OF assms(4,5), of ?D] True show ?thesis by simp
  qed
qed

theorem transform_internal_links_frame_witness:
  "transform_internal_links sample_ext sample_builder intro_mdast = Inr intro_written
   \<and> node_at [1, 0] intro_mdast = Some guide_link
   \<and> urlparse sample_ext ''guide#setup'' = Inr guide_parsed
   \<and> path guide_parsed \<in> set (found_docs (env sample_builder))
   \<and> items_at [1, 0] intro_written
       = Some (AList.update ''url'' ''guide.myst.json#setup'' (items guide_link))
   \<and> urlparse sample_ext ''guide.myst.json#setup''
       = Inr (guide_parsed\<lparr>path := ''guide.myst.json''\<rparr>)
   \<and> node_at [1, 1] intro_mdast = Some external_link
   \<and> urlparse sample_ext ''https://example.org/guide'' = Inr external_parsed
   \<and> scheme external_parsed \<noteq> []
   \<and> items_at [1, 1] intro_written = Some (items external_link)"
proof -
  have go: "scheme guide_parsed = [] \<and> path guide_parsed \<noteq> []
              \<and> path guide_parsed \<in> set (found_docs (env sample_builder))"
    by (simp add: guide_parsed_def sample_builder_def)
  have ext: "scheme external_parsed \<noteq> []"
    by (simp add: external_parsed_def)
  have p: "path guide_parsed @ ''.myst.json'' = ''guide.myst.json''"
    by (simp add: guide_parsed_def)
  from transform_internal_links_frame
         [OF sample_transform_intro sample_links(1,3,4) sample_parses(1)] go
  have "items_at [1, 0] intro_written
          = Some (AList.update ''url'' ''guide.myst.json#setup'' (items guide_link))
        \<and> urlparse sample_ext ''guide.myst.json#setup''
          = Inr (guide_parsed\<lparr>path := ''guide.myst.json''\<rparr>)"
    by (simp add: sample_parses(3) p)
  moreover from transform_internal_links_frame
         [OF sample_transform_intro sample_links(2,5,6) sample_parses(2)] ext
  have "items_at [1, 1] intro_written = Some (items external_link)"
    by simp
  ultimately show ?thesis
    using sample_transform_intro sample_links(1,2) sample_parses(1,2) go ext by simp
qed

text \<open>
  Claim C7, as stated, fails: when a document is called \<open>a\<close> and another one
  \<open>a.myst.json\<close>, a link to \<open>a\<close> becomes \<open>a.myst.json\<close> in the first pass and
  \<open>a.myst.json.myst.json\<close> in the second.
\<close>

theorem link_rewrite_twice_counterexample:
  "transform_internal_links sample_ext twice_builder link_a = Inr link_a_once
   \<and> transform_internal_links sample_ext twice_builder link_a_once = Inr link_a_twice
   \<and> link_a_twice \<noteq> link_a_once"
  by (simp add: transform_internal_links_def find_by_type_def breadth_first_walk_def
        walk_queue.simps kids_def twice_builder_def sample_ext_def link_a_def link_a_once_def
        link_a_twice_def url_defs Let_def)

text \<open>
  Claim C7, amended. For a link whose path is a known document name, if the path with
  the suffix appended is not a known document name as well, a second pass of the
  rewrite returns and leaves the entries of the link, the URL among them, as the first
  pass made them.
\<close>

theorem transform_internal_links_idempotent:
  assumes "transform_internal_links x b tree = Inr tree1"
    and "node_at p tree = Some link"
    and "map_of (items link) ''type'' = Some ''link''"
    and "map_of (items link) ''url'' = Some url"
    and "urlparse x url = Inr parsed"
    and "scheme parsed = []" and "path parsed \<noteq> []"
    and "path parsed \<in> set (found_docs (env b))"
    and "path parsed @ ''.myst.json'' \<notin> set (found_docs (env b))"
  shows "\<exists>tree2. transform_internal_links x b tree1 = Inr tree2
               \<and> items_at p tree2 = items_at p tree1
               \<and> items_at p tree1
                   = Some (AList.update ''url''
                             (urlunparse (parsed\<lparr>path := path parsed @ ''.myst.json''\<rparr>))
                             (items link))"
proof -
  let ?D = "set (found_docs (env b))"
  let ?P' = "parsed\<lparr>path := path parsed @ ''.myst.json''\<rparr>"
  let ?its1 = "AList.update ''url'' (urlunparse ?P') (items link)"
  from transform_internal_links_again [OF assms(1)] obtain tree2 where
    t2: "transform_internal_links x b tree1 = Inr tree2" by blast
  have once: "link_rewrite x ?D (items link) = ?its1"
    using rewritten_items_cases [OF assms(4,5), of ?D] assms(3,6,7,8)
    by (simp add: link_rewrite_def)
  have at1: "items_at p tree1 = Some ?its1"
    using transform_internal_links_at [OF assms(1,2)] once by simp
  then obtain link1 where l1: "node_at p tree1 = Some link1" "items link1 = ?its1"
    by (auto simp: items_at_def)
  have re: "urlparse x (urlunparse ?P') = Inr ?P'"
    by (rule urlparse_reparse [OF assms(5,6,7)])
  have url1: "map_of ?its1 ''url'' = Some (urlunparse ?P')"
    by (simp add: update_conv')
  have "rewritten_items x ?D ?its1 = ?its1"
    using rewritten_items_cases [OF url1 re, of ?D] assms(9) by simp
  then have "link_rewrite x ?D ?its1 = ?its1"
    by (simp add: link_rewrite_def)
  with transform_internal_links_at [OF t2 l1(1)] l1(2) have "items_at p tree2 = Some ?its1"
    by simp
  with t2 at1 show ?thesis by simp
qed

theorem transform_internal_links_idempotent_witness:
  "transform_internal_links sample_ext sample_builder intro_mdast = Inr intro_written
   \<and> node_at [1, 0] intro_mdast = Some guide_link
   \<and> urlparse sample_ext ''guide#setup'' = Inr guide_parsed
   \<and> path guide_parsed \<in> set (found_docs (env sample_builder))
   \<and> path guide_parsed @ ''.myst.json'' \<notin> set (found_docs (env sample_builder))
   \<and> (\<exists>tree2. transform_internal_links sample_ext sample_builder intro_written = Inr tree2
              \<and> items_at [1, 0] tree2 = items_at [1, 0] intro_written)"
proof -
  have go: "scheme guide_parsed = []" "path guide_parsed \<noteq> []"
    "path guide_parsed \<in> set (found_docs (env sample_builder))"
    "path guide_parsed @ ''.myst.json'' \<notin> set (found_docs (env sample_builder))"
    by (simp_all add: guide_parsed_def sample_builder_def)
  from transform_internal_links_idempotent
         [OF sample_transform_intro sample_links(1,3,4) sample_parses(1) go]
    sample_transform_intro sample_links(1) sample_parses(1) go(3,4)
  show ?thesis by blast
qed

section \<open>The lifted title\<close>

text \<open>The rewrite of the links changes neither the headings nor their text.\<close>

lemma to_text_map_tree:
  assumes "\<And>its. map_of (g its) ''value'' = map_of its ''value''"
  shows "to_text (map_tree g n) = to_text n"
proof (induction n rule: to_text.induct)
  case (1 its cs)
  show ?case
  proof (cases "map_of its ''value''")
    case (Some v)
    then show ?thesis by (simp add: assms)
  next
    case None
    with 1 have "\<And>c. c \<in> set cs \<Longrightarrow> to_text (map_tree g c) = to_text c"
      by simp
    then have eq: "map (\<lambda>c. to_text (map_tree g c)) cs = map to_text cs"
      by (rule map_cong [OF refl])
    have "to_text (map_tree g (Node its cs)) = concat (map (\<lambda>c. to_text (map_tree g c)) cs)"
      using None by (simp add: assms comp_def)
    also have "\<dots> = concat (map to_text cs)"
      by (simp only: eq)
    also have "\<dots> = to_text (Node its cs)"
      using None by simp
    finally show ?thesis .
  qed
qed

lemma find_by_type_map_tree_nodes:
  assumes "\<And>its. map_of (g its) ''type'' = map_of its ''type''"
  shows "find_by_type ty (map_tree g t)
           = map (\<lambda>r. (fst r, map_tree g (snd r))) (find_by_type ty t)"
  by (simp add: find_by_type_def breadth_first_walk_map_tree filter_map comp_def
        items_map_tree assms)

lemma lift_title_map_tree:
  assumes "\<And>its. map_of (g its) ''type'' = map_of its ''type''"
    and "\<And>its. map_of (g its) ''value'' = map_of its ''value''"
  shows "lift_title (map_tree g t) = lift_title t"
  by (simp add: lift_title_def find_by_type_map_tree_nodes [OF assms(1)]
        to_text_map_tree [OF assms(2)] split: list.splits)

lemma link_rewrite_value:
  "map_of (link_rewrite x D its) ''value'' = map_of its ''value''"
  by (simp add: link_rewrite_def rewritten_items_def map_of_update_other
        split: option.splits sum.splits)

lemma lift_title_transform:
  assumes "transform_internal_links x b mdast0 = Inr mdast"
  shows "lift_title mdast = lift_title mdast0"
  unfolding transform_internal_links_map_tree [OF assms]
  by (rule lift_title_map_tree [OF link_rewrite_type link_rewrite_value])

lemma title_of_first_heading_lift:
  "title_of_first_heading ast
     (JDict [(''title'', (case lift_title t of None \<Rightarrow> JNull | Some s \<Rightarrow> JStr s)),
             (''content_includes_title'', JBool (lift_title t \<noteq> None))])
   \<longleftrightarrow> lift_title ast = lift_title t"
  by (auto simp: title_of_first_heading_def lift_title_def dict_get_def split: list.splits)

text \<open>
  Claim C6. When the cross-reference builder's \<open>write_doc\<close> returns, the artifact it
  stored holds the rewritten AST and a frontmatter with the two keys \<open>title\<close> and
  \<open>content_includes_title\<close>: if no node of the AST has type \<open>heading\<close>, the title is
  null and the flag false; otherwise the title is the text of the first heading that
  \<open>find_by_type\<close> yields and the flag is true. This holds for the AST as the visitor
  returned it and for the AST after the rewrite of its links alike.
\<close>

theorem xref_write_doc_title:
  assumes "xref_write_doc x b sources fs doc_name mdast0 = Inr fs'"
  shows "\<exists>mdast art fm.
           transform_internal_links x b mdast0 = Inr mdast
         \<and> files fs' (xref_get_target_path x b doc_name) = Some art
         \<and> dict_get art ''mdast'' = Some (JAst mdast)
         \<and> dict_get art ''frontmatter'' = Some fm
         \<and> dict_keys fm = [''title'', ''content_includes_title'']
         \<and> title_of_first_heading mdast fm
         \<and> title_of_first_heading mdast0 fm
         \<and> (find_by_type ''heading'' mdast = [] \<longleftrightarrow>
              (\<forall>n \<in> set (subnodes mdast). map_of (items n) ''type'' \<noteq> Some ''heading''))
         \<and> (find_by_type ''heading'' mdast0 = [] \<longleftrightarrow>
              (\<forall>n \<in> set (subnodes mdast0). map_of (items n) ''type'' \<noteq> Some ''heading''))"
proof -
  from xref_write_doc_written [OF assms] obtain mdast contents where
    t: "transform_internal_links x b mdast0 = Inr mdast" and
    f: "files fs' = (files fs)(xref_get_target_path x b doc_name
                                 \<mapsto> xref_artifact x doc_name contents mdast)"
    by blast
  let ?art = "xref_artifact x doc_name contents mdast"
  let ?fm = "JDict [(''title'', (case lift_title mdast of None \<Rightarrow> JNull | Some t \<Rightarrow> JStr t)),
                    (''content_includes_title'', JBool (lift_title mdast \<noteq> None))]"
  have 1: "files fs' (xref_get_target_path x b doc_name) = Some ?art"
    using f by simp
  have 2: "dict_get ?art ''mdast'' = Some (JAst mdast)"
    by (simp add: xref_artifact_def dict_get_def Let_def)
  have 3: "dict_get ?art ''frontmatter'' = Some ?fm"
    by (simp add: xref_artifact_def dict_get_def Let_def)
  have 4: "dict_keys ?fm = [''title'', ''content_includes_title'']"
    by (simp add: dict_keys_def)
  have 5: "title_of_first_heading mdast ?fm"
    by (simp only: title_of_first_heading_lift)
  have 6: "title_of_first_heading mdast0 ?fm"
    using lift_title_transform [OF t] by (simp only: title_of_first_heading_lift)
  from t 1 2 3 4 5 6 find_by_type_empty [of "''heading''" mdast]
    find_by_type_empty [of "''heading''" mdast0]
  show ?thesis by blast
qed

theorem xref_write_doc_title_witness:
  "xref_write_doc sample_ext sample_builder sample_sources sample_fs ''intro'' intro_mdast
     = Inr sample_fs1
   \<and> files sample_fs1 (xref_get_target_path sample_ext sample_builder ''intro'')
       = Some (xref_artifact sample_ext ''intro'' ''Intro'' intro_written)
   \<and> dict_get (xref_artifact sample_ext ''intro'' ''Intro'' intro_written) ''frontmatter''
       = Some (JDict [(''title'', JStr ''Intro''), (''content_includes_title'', JBool True)])
   \<and> title_of_first_heading intro_mdast
        (JDict [(''title'', JStr ''Intro''), (''content_includes_title'', JBool True)])
   \<and> xref_write_doc sample_ext sample_builder sample_sources sample_fs1 ''guide'' guide_mdast
       = Inr sample_built
   \<and> files sample_built (xref_get_target_path sample_ext sample_builder ''guide'')
       = Some (xref_artifact sample_ext ''guide'' ''text'' guide_mdast)
   \<and> dict_get (xref_artifact sample_ext ''guide'' ''text'' guide_mdast) ''frontmatter''
       = Some (JDict [(''title'', JNull), (''content_includes_title'', JBool False)])
   \<and> title_of_first_heading guide_mdast
        (JDict [(''title'', JNull), (''content_includes_title'', JBool False)])"
proof -
  have fm1: "dict_get (xref_artifact sample_ext ''intro'' ''Intro'' intro_written) ''frontmatter''
       = Some (JDict [(''title'', JStr ''Intro''), (''content_includes_title'', JBool True)])"
    by (simp add: xref_artifact_def dict_get_def lift_title_def find_by_type_def
          breadth_first_walk_def walk_queue.simps kids_def intro_written_def Let_def)
  have fm2: "dict_get (xref_artifact sample_ext ''guide'' ''text'' guide_mdast) ''frontmatter''
       = Some (JDict [(''title'', JNull), (''content_includes_title'', JBool False)])"
    by (simp add: xref_artifact_def dict_get_def lift_title_def find_by_type_def
          breadth_first_walk_def walk_queue.simps kids_def guide_mdast_def Let_def)
  have f1: "files sample_fs1 (xref_get_target_path sample_ext sample_builder ''intro'')
       = Some (xref_artifact sample_ext ''intro'' ''Intro'' intro_written)"
    by (simp add: sample_target_paths sample_fs1_def)
  have f2: "files sample_built (xref_get_target_path sample_ext sample_builder ''guide'')
       = Some (xref_artifact sample_ext ''guide'' ''text'' guide_mdast)"
    by (simp add: sample_target_paths sample_built_def)
  from xref_write_doc_title [OF sample_write_intro] f1 fm1
  have t1: "title_of_first_heading intro_mdast
        (JDict [(''title'', JStr ''Intro''), (''content_includes_title'', JBool True)])"
    by auto
  from xref_write_doc_title [OF sample_write_guide] f2 fm2
  have t2: "title_of_first_heading guide_mdast
        (JDict [(''title'', JNull), (''content_includes_title'', JBool False)])"
    by auto
  from sample_write_intro sample_write_guide f1 f2 fm1 fm2 t1 t2 show ?thesis by simp
qed

end
